theory Spec2Isabelle
  imports Main "HOL-Library.Char_ord"
begin

section \<open>Source text and character classes\<close>

text \<open>
  A source text is a JavaScript string, read by index. A \<^typ>\<open>char\<close> stands for one
  code unit below 256; \<open>text[i]\<close> out of range is \<open>undefined\<close>, modelled as
  \<^const>\<open>None\<close>. Forward cursors are natural numbers, backward cursors (which reach
  \<open>-1\<close>) are integers.
\<close>

abbreviation SQUOTE :: char where "SQUOTE \<equiv> CHR 0x27"
abbreviation DQUOTE :: char where "DQUOTE \<equiv> CHR 0x22"
abbreviation BACKTICK :: char where "BACKTICK \<equiv> CHR 0x60"
abbreviation BACKSLASH :: char where "BACKSLASH \<equiv> CHR 0x5C"
abbreviation NEWLINE :: char where "NEWLINE \<equiv> CHR 0x0A"

definition charAt :: "string \<Rightarrow> nat \<Rightarrow> char option" where
  "charAt text i = (if i < length text then Some (text ! i) else None)"

definition charAtI :: "string \<Rightarrow> int \<Rightarrow> char option" where
  "charAtI text i = (if 0 \<le> i \<and> i < int (length text) then Some (text ! nat i) else None)"

definition isLetter :: "char \<Rightarrow> bool" where
  "isLetter c = ((CHR ''a'' \<le> c \<and> c \<le> CHR ''z'') \<or> (CHR ''A'' \<le> c \<and> c \<le> CHR ''Z''))"

definition isDigit :: "char \<Rightarrow> bool" where
  "isDigit c = (CHR ''0'' \<le> c \<and> c \<le> CHR ''9'')"

text \<open>The class \<open>\s\<close> of a JavaScript regular expression, on code units below 256.\<close>

definition isSpace :: "char \<Rightarrow> bool" where
  "isSpace c = (c = CHR 0x09 \<or> c = CHR 0x0A \<or> c = CHR 0x0B \<or> c = CHR 0x0C \<or> c = CHR 0x0D
                 \<or> c = CHR 0x20 \<or> c = CHR 0xA0)"

text \<open>
  \<open>RegExp.test(x)\<close> converts \<open>x\<close> to a string first: on \<open>undefined\<close> the class is
  searched in the word \<open>undefined\<close>, which holds letters and no white space.
\<close>

definition testClass :: "(char \<Rightarrow> bool) \<Rightarrow> char option \<Rightarrow> bool" where
  "testClass cls x = (case x of Some c \<Rightarrow> cls c | None \<Rightarrow> list_ex cls ''undefined'')"

text \<open>\<open>String.prototype.toLowerCase\<close> on code units below 256.\<close>

definition upperChars :: string where
  "upperChars = ''ABCDEFGHIJKLMNOPQRSTUVWXYZ'' @
     [CHR 0xC0, CHR 0xC1, CHR 0xC2, CHR 0xC3, CHR 0xC4, CHR 0xC5, CHR 0xC6, CHR 0xC7,
      CHR 0xC8, CHR 0xC9, CHR 0xCA, CHR 0xCB, CHR 0xCC, CHR 0xCD, CHR 0xCE, CHR 0xCF,
      CHR 0xD0, CHR 0xD1, CHR 0xD2, CHR 0xD3, CHR 0xD4, CHR 0xD5, CHR 0xD6,
      CHR 0xD8, CHR 0xD9, CHR 0xDA, CHR 0xDB, CHR 0xDC, CHR 0xDD, CHR 0xDE]"

definition lowerChars :: string where
  "lowerChars = ''abcdefghijklmnopqrstuvwxyz'' @
     [CHR 0xE0, CHR 0xE1, CHR 0xE2, CHR 0xE3, CHR 0xE4, CHR 0xE5, CHR 0xE6, CHR 0xE7,
      CHR 0xE8, CHR 0xE9, CHR 0xEA, CHR 0xEB, CHR 0xEC, CHR 0xED, CHR 0xEE, CHR 0xEF,
      CHR 0xF0, CHR 0xF1, CHR 0xF2, CHR 0xF3, CHR 0xF4, CHR 0xF5, CHR 0xF6,
      CHR 0xF8, CHR 0xF9, CHR 0xFA, CHR 0xFB, CHR 0xFC, CHR 0xFD, CHR 0xFE]"

definition toLowerChar :: "char \<Rightarrow> char" where
  "toLowerChar c = (case map_of (zip upperChars lowerChars) c of Some l \<Rightarrow> l | None \<Rightarrow> c)"

definition toLowerCase :: "string \<Rightarrow> string" where
  "toLowerCase s = map toLowerChar s"

section \<open>The span model\<close>

record ColoredRange =
  startOffset :: int
  endOffset :: int
  depth :: int

definition createColoredRange :: "int \<Rightarrow> int \<Rightarrow> int \<Rightarrow> ColoredRange" where
  "createColoredRange s e d = \<lparr>startOffset = s, endOffset = e, depth = d\<rparr>"

section \<open>HtmlParser\<close>

definition VOID_ELEMENTS :: "string list" where
  "VOID_ELEMENTS =
     [''area'', ''base'', ''br'', ''col'', ''embed'', ''hr'', ''img'', ''input'',
      ''link'', ''meta'', ''param'', ''source'', ''track'', ''wbr'',
      ''command'', ''keygen'', ''menuitem'']"

datatype tag_type = OpenTag | CloseTag | SelfCloseTag

record TagMatch =
  tagType :: tag_type
  tagName :: string
  bracketStart :: nat
  bracketEnd :: nat
  nameStart :: nat
  nameEnd :: nat

subsection \<open>findTagEnd\<close>

text \<open>
  The loop of \<open>findTagEnd\<close>: \<open>stringChar\<close> is \<open>''\<close> (here \<^const>\<open>None\<close>) until the
  first quote is met.
\<close>

function findTagEnd_loop ::
  "string \<Rightarrow> bool \<Rightarrow> nat \<Rightarrow> bool \<Rightarrow> char option \<Rightarrow> (nat \<times> bool) option" where
  "findTagEnd_loop text isClosing i inString stringChar =
     (if i < length text then
        (if inString then
           (if Some (text ! i) = stringChar \<and> charAtI text (int i - 1) \<noteq> Some BACKSLASH
            then findTagEnd_loop text isClosing (i + 1) False stringChar
            else findTagEnd_loop text isClosing (i + 1) True stringChar)
         else if text ! i = DQUOTE \<or> text ! i = SQUOTE
           then findTagEnd_loop text isClosing (i + 1) True (Some (text ! i))
         else if text ! i = CHR ''>''
           then Some (i + 1, \<not> isClosing \<and> charAtI text (int i - 1) = Some CHR ''/'')
         else if text ! i = CHR ''<'' then None
         else findTagEnd_loop text isClosing (i + 1) False stringChar)
      else None)"
  by pat_completeness auto
termination
  by (relation "measure (\<lambda>(text, isClosing, i, inString, stringChar). length text - i)") auto

declare findTagEnd_loop.simps [simp del]

definition findTagEnd :: "string \<Rightarrow> nat \<Rightarrow> bool \<Rightarrow> (nat \<times> bool) option" where
  "findTagEnd text startPos isClosing = findTagEnd_loop text isClosing startPos False None"

subsection \<open>The tag start pattern\<close>

text \<open>The class \<open>[a-zA-Z0-9._:-]\<close>.\<close>

definition isTagNameChar :: "char \<Rightarrow> bool" where
  "isTagNameChar c = (isLetter c \<or> isDigit c \<or> c = CHR ''.'' \<or> c = CHR ''_'' \<or> c = CHR '':''
                       \<or> c = CHR ''-'')"

text \<open>
  A match of \<open>/<\/?([a-zA-Z][a-zA-Z0-9._:-]*)/\<close> that starts at \<open>p\<close>: whether it starts
  with \<open></\<close>, and the captured name (the star is greedy).
\<close>

definition matchTagStartAt :: "string \<Rightarrow> nat \<Rightarrow> (bool \<times> string) option" where
  "matchTagStartAt text p =
     (if charAt text p = Some CHR ''<'' then
        (let isClosing = (charAt text (p + 1) = Some CHR ''/'');
             ns = (if isClosing then p + 2 else p + 1)
         in (case charAt text ns of
               Some c \<Rightarrow>
                 if isLetter c then Some (isClosing, takeWhile isTagNameChar (drop ns text))
                 else None
             | None \<Rightarrow> None))
      else None)"

text \<open>\<open>tagStartRegex.exec(text)\<close> from \<open>lastIndex\<close>: the leftmost match at or after it.\<close>

function tagStartRegex_exec :: "string \<Rightarrow> nat \<Rightarrow> (nat \<times> bool \<times> string) option" where
  "tagStartRegex_exec text p =
     (if p < length text then
        (case matchTagStartAt text p of
           Some (isClosing, name) \<Rightarrow> Some (p, isClosing, name)
         | None \<Rightarrow> tagStartRegex_exec text (p + 1))
      else None)"
  by pat_completeness auto
termination
  by (relation "measure (\<lambda>(text, p). length text - p)") auto

declare tagStartRegex_exec.simps [simp del]

lemma matchTagStartAt_name_nonempty:
  "matchTagStartAt text p = Some (isClosing, name) \<Longrightarrow> name \<noteq> []"
  by (auto simp: matchTagStartAt_def Let_def charAt_def isTagNameChar_def takeWhile_eq_Nil_iff
           hd_drop_conv_nth split: if_splits option.splits)

lemma tagStartRegex_exec_Some:
  "tagStartRegex_exec t p = Some (idx, isClosing, name) \<Longrightarrow>
     p \<le> idx \<and> idx < length t \<and> matchTagStartAt t idx = Some (isClosing, name)"
proof (induction t p rule: tagStartRegex_exec.induct)
  case (1 t p)
  show ?case
  proof (cases "p < length t")
    case False
    with "1.prems" show ?thesis by (simp add: tagStartRegex_exec.simps)
  next
    case True
    show ?thesis
    proof (cases "matchTagStartAt t p")
      case None
      with True "1.prems" have "tagStartRegex_exec t (p + 1) = Some (idx, isClosing, name)"
        by (simp add: tagStartRegex_exec.simps [of t p])
      with "1.IH" [OF True None] show ?thesis by simp
    next
      case (Some m)
      with True "1.prems" show ?thesis
        by (cases m) (simp add: tagStartRegex_exec.simps [of t p])
    qed
  qed
qed

subsection \<open>findAllTags\<close>

definition mkTag :: "tag_type \<Rightarrow> string \<Rightarrow> nat \<Rightarrow> nat \<Rightarrow> nat \<Rightarrow> nat \<Rightarrow> TagMatch" where
  "mkTag ty name bs be ns ne =
     \<lparr>tagType = ty, tagName = name, bracketStart = bs, bracketEnd = be,
      nameStart = ns, nameEnd = ne\<rparr>"

text \<open>
  One candidate: the match found at \<open>idx\<close>, and the tag it gives when \<open>findTagEnd\<close>
  finds its end (\<^const>\<open>None\<close> is the \<open>continue\<close> of a malformed tag).
\<close>

definition candidateNameEnd :: "nat \<Rightarrow> bool \<Rightarrow> string \<Rightarrow> nat" where
  "candidateNameEnd idx isClosing name = (if isClosing then idx + 2 else idx + 1) + length name"

definition candidateTag :: "string \<Rightarrow> nat \<Rightarrow> bool \<Rightarrow> string \<Rightarrow> TagMatch option" where
  "candidateTag text idx isClosing name =
     (let bracketStart = idx;
          nameStart = (if isClosing then idx + 2 else idx + 1);
          nameEnd = nameStart + length name
      in (case findTagEnd text nameEnd isClosing of
            None \<Rightarrow> None
          | Some (end, selfClosing) \<Rightarrow>
              if isClosing then Some (mkTag CloseTag name bracketStart end nameStart nameEnd)
              else if selfClosing
                then Some (mkTag SelfCloseTag name bracketStart end nameStart nameEnd)
              else Some (mkTag OpenTag name bracketStart end nameStart nameEnd)))"

text \<open>
  The \<open>while\<close> loop of \<open>findAllTags\<close>; its state is the \<open>lastIndex\<close> of the global
  pattern, which after a match is the end of the matched name.
\<close>

function findAllTags_loop :: "string \<Rightarrow> nat \<Rightarrow> TagMatch list" where
  "findAllTags_loop text lastIndex =
     (case tagStartRegex_exec text lastIndex of
        None \<Rightarrow> []
      | Some (idx, isClosing, name) \<Rightarrow>
          (case candidateTag text idx isClosing name of
             None \<Rightarrow> findAllTags_loop text (candidateNameEnd idx isClosing name)
           | Some tag \<Rightarrow> tag # findAllTags_loop text (candidateNameEnd idx isClosing name)))"
  by pat_completeness auto
termination
  apply (relation "measure (\<lambda>(text, lastIndex). length text - lastIndex)")
    apply simp
   apply (auto simp: candidateNameEnd_def dest!: tagStartRegex_exec_Some)
  done

declare findAllTags_loop.simps [simp del]

definition findAllTags :: "string \<Rightarrow> TagMatch list" where
  "findAllTags text = findAllTags_loop text 0"

subsection \<open>findMatchingOpenTag\<close>

function findMatchingOpenTag_loop :: "string list \<Rightarrow> string \<Rightarrow> int \<Rightarrow> int" where
  "findMatchingOpenTag_loop stack lowerTagName i =
     (if i \<ge> 0 then
        (if toLowerCase (stack ! nat i) = lowerTagName then i
         else findMatchingOpenTag_loop stack lowerTagName (i - 1))
      else -1)"
  by pat_completeness auto
termination
  by (relation "measure (\<lambda>(stack, lowerTagName, i). nat (i + 1))") auto

declare findMatchingOpenTag_loop.simps [simp del]

definition findMatchingOpenTag :: "string list \<Rightarrow> string \<Rightarrow> int" where
  "findMatchingOpenTag stack name =
     findMatchingOpenTag_loop stack (toLowerCase name) (int (length stack) - 1)"

subsection \<open>createTagRanges and parse\<close>

definition createTagRanges :: "TagMatch \<Rightarrow> int \<Rightarrow> ColoredRange list" where
  "createTagRanges tag d =
     (if tagType tag = CloseTag then
        [createColoredRange (int (bracketStart tag)) (int (bracketStart tag) + 2) d,
         createColoredRange (int (nameStart tag)) (int (nameEnd tag)) d,
         createColoredRange (int (bracketEnd tag) - 1) (int (bracketEnd tag)) d]
      else if tagType tag = SelfCloseTag then
        [createColoredRange (int (bracketStart tag)) (int (bracketStart tag) + 1) d,
         createColoredRange (int (nameStart tag)) (int (nameEnd tag)) d,
         createColoredRange (int (bracketEnd tag) - 2) (int (bracketEnd tag)) d]
      else
        [createColoredRange (int (bracketStart tag)) (int (bracketStart tag) + 1) d,
         createColoredRange (int (nameStart tag)) (int (nameEnd tag)) d,
         createColoredRange (int (bracketEnd tag) - 1) (int (bracketEnd tag)) d])"

text \<open>
  The state of the replay loop of \<open>parse\<close>: the ranges pushed so far and the tag stack
  (a JavaScript array: \<open>push\<close> appends, \<open>splice(i)\<close> keeps the first \<open>i\<close> entries).
\<close>

type_synonym html_state = "ColoredRange list \<times> string list"

definition parse_step :: "html_state \<Rightarrow> TagMatch \<Rightarrow> html_state" where
  "parse_step st tag =
     (case st of (ranges, tagStack) \<Rightarrow>
        (case tagType tag of
           OpenTag \<Rightarrow>
             (let currentDepth = int (length tagStack)
              in (ranges @ createTagRanges tag currentDepth,
                  if toLowerCase (tagName tag) \<notin> set VOID_ELEMENTS
                  then tagStack @ [tagName tag] else tagStack))
         | SelfCloseTag \<Rightarrow>
             (let currentDepth = int (length tagStack)
              in (ranges @ createTagRanges tag currentDepth, tagStack))
         | CloseTag \<Rightarrow>
             (let matchIndex = findMatchingOpenTag tagStack (tagName tag);
                  tagStack' = (if matchIndex \<noteq> -1 then take (nat matchIndex) tagStack
                               else tagStack);
                  currentDepth = int (length tagStack')
              in (ranges @ createTagRanges tag currentDepth, tagStack'))))"

definition parse_tags :: "TagMatch list \<Rightarrow> html_state" where
  "parse_tags tags = foldl parse_step ([], []) tags"

definition parse :: "string \<Rightarrow> ColoredRange list" where
  "parse text = fst (parse_tags (findAllTags text))"

section \<open>Scanning helpers shared by JsxParser and ObjectParser\<close>

text \<open>\<open>while (pos < text.length && P(text[pos])) pos++\<close>, as both parsers write it.\<close>

definition skipWhile :: "(char \<Rightarrow> bool) \<Rightarrow> string \<Rightarrow> nat \<Rightarrow> nat" where
  "skipWhile P text pos = pos + length (takeWhile P (drop pos text))"

text \<open>\<open>text.slice(a, b)\<close> for \<open>0 \<le> a\<close>.\<close>

definition slice :: "string \<Rightarrow> nat \<Rightarrow> nat \<Rightarrow> string" where
  "slice text a b = take (b - a) (drop a text)"

text \<open>
  \<open>skipToEndOfLine\<close> and \<open>skipBlockComment\<close> have the same text in both classes.
\<close>

definition skipToEndOfLine :: "string \<Rightarrow> nat \<Rightarrow> nat" where
  "skipToEndOfLine text pos = skipWhile (\<lambda>c. c \<noteq> NEWLINE) text pos + 1"

function skipBlockComment_loop :: "string \<Rightarrow> nat \<Rightarrow> nat" where
  "skipBlockComment_loop text pos =
     (if int pos < int (length text) - 1 then
        (if text ! pos = CHR ''*'' \<and> text ! (pos + 1) = CHR ''/'' then pos + 2
         else skipBlockComment_loop text (pos + 1))
      else length text)"
  by pat_completeness auto
termination
  by (relation "measure (\<lambda>(text, pos). length text - pos)") auto

declare skipBlockComment_loop.simps [simp del]

definition skipBlockComment :: "string \<Rightarrow> nat \<Rightarrow> nat" where
  "skipBlockComment text pos = skipBlockComment_loop text (pos + 2)"

text \<open>The backward loop \<open>while (i >= 0 && /\s/.test(text[i])) i--\<close>.\<close>

function skipSpaceBack :: "string \<Rightarrow> int \<Rightarrow> int" where
  "skipSpaceBack text i =
     (if i \<ge> 0 \<and> testClass isSpace (charAtI text i) then skipSpaceBack text (i - 1) else i)"
  by pat_completeness auto
termination
  by (relation "measure (\<lambda>(text, i). nat (i + 1))") auto

declare skipSpaceBack.simps [simp del]

text \<open>\<open>getKeywordBefore\<close> has the same text in both classes.\<close>

function getKeywordBefore_loop :: "string \<Rightarrow> int \<Rightarrow> int" where
  "getKeywordBefore_loop text start =
     (if start > 0 \<and> testClass isLetter (charAtI text (start - 1))
      then getKeywordBefore_loop text (start - 1) else start)"
  by pat_completeness auto
termination
  by (relation "measure (\<lambda>(text, start). nat start)") auto

declare getKeywordBefore_loop.simps [simp del]

definition getKeywordBefore :: "string \<Rightarrow> int \<Rightarrow> string option" where
  "getKeywordBefore text endPos =
     (if endPos < 0 \<or> \<not> testClass isLetter (charAtI text endPos) then None
      else Some (slice text (nat (getKeywordBefore_loop text endPos)) (nat (endPos + 1))))"

record config =
  colorizeKeys :: bool
  objectBracesEnabled :: bool

section \<open>JsxParser\<close>

datatype TokenType =
  JsxOpenStart | JsxOpenEnd | JsxClose | JsxSelfClose
  | ExpressionStart | ExpressionEnd | ObjectBrace | PropertyKey

record Token =
  tok_type :: TokenType
  tok_start :: int
  tok_end :: int
  tok_depth :: int
  tok_tagName :: "string option"

definition mkToken :: "TokenType \<Rightarrow> int \<Rightarrow> int \<Rightarrow> int \<Rightarrow> string option \<Rightarrow> Token" where
  "mkToken ty s e d n = \<lparr>tok_type = ty, tok_start = s, tok_end = e, tok_depth = d, tok_tagName = n\<rparr>"

subsection \<open>skipString\<close>

text \<open>The inner loop of \<open>skipString\<close> over a \<open>${...}\<close> segment: it counts braces only.\<close>

function jsx_skipInterpolation :: "string \<Rightarrow> nat \<Rightarrow> int \<Rightarrow> nat" where
  "jsx_skipInterpolation text pos d =
     (if pos < length text \<and> d > 0 then
        (if text ! pos = CHR ''{'' then jsx_skipInterpolation text (pos + 1) (d + 1)
         else if text ! pos = CHR ''}'' then jsx_skipInterpolation text (pos + 1) (d - 1)
         else jsx_skipInterpolation text (pos + 1) d)
      else pos)"
  by pat_completeness auto
termination
  by (relation "measure (\<lambda>(text, pos, d). length text - pos)") auto

declare jsx_skipInterpolation.simps [simp del]

lemma jsx_skipInterpolation_ge: "pos \<le> jsx_skipInterpolation t pos d"
proof (induction t pos d rule: jsx_skipInterpolation.induct)
  case (1 t pos d)
  show ?case
  proof (cases "pos < length t \<and> d > 0")
    case False
    then show ?thesis by (auto simp: jsx_skipInterpolation.simps [of t pos d])
  next
    case True
    have "pos + 1 \<le> jsx_skipInterpolation t pos d"
      using True "1.IH" by (auto simp: jsx_skipInterpolation.simps [of t pos d])
    then show ?thesis by simp
  qed
qed

lemma jsx_skipInterpolation_measure:
  "pos < length t \<Longrightarrow> length t - jsx_skipInterpolation t (Suc (Suc pos)) d < length t - pos"
  using jsx_skipInterpolation_ge [of "Suc (Suc pos)" t d] by linarith

function jsx_skipString_loop :: "string \<Rightarrow> char \<Rightarrow> nat \<Rightarrow> nat" where
  "jsx_skipString_loop text quote pos =
     (if pos < length text then
        (if text ! pos = BACKSLASH then jsx_skipString_loop text quote (pos + 2)
         else if text ! pos = quote then pos + 1
         else if text ! pos = NEWLINE \<and> quote \<noteq> BACKTICK then pos
         else if quote = BACKTICK \<and> text ! pos = CHR ''$'' \<and> charAt text (pos + 1) = Some CHR ''{''
           then jsx_skipString_loop text quote (jsx_skipInterpolation text (pos + 2) 1)
         else jsx_skipString_loop text quote (pos + 1))
      else pos)"
  by pat_completeness auto
termination
  by (relation "measure (\<lambda>(text, quote, pos). length text - pos)")
     (auto simp: jsx_skipInterpolation_measure)

declare jsx_skipString_loop.simps [simp del]

definition jsx_skipString :: "string \<Rightarrow> nat \<Rightarrow> char \<Rightarrow> nat" where
  "jsx_skipString text pos quote = jsx_skipString_loop text quote (pos + 1)"

lemma jsx_skipString_loop_ge: "pos \<le> jsx_skipString_loop t quote pos"
proof (induction t quote pos rule: jsx_skipString_loop.induct)
  case (1 t quote pos)
  show ?case
  proof (cases "pos < length t")
    case False
    then show ?thesis by (simp add: jsx_skipString_loop.simps [of t quote pos])
  next
    case True
    note il = True
    show ?thesis
    proof (cases "t ! pos = BACKSLASH")
      case True
      with il "1.IH"(1) show ?thesis by (simp add: jsx_skipString_loop.simps [of t quote pos])
    next
      case nb: False
      show ?thesis
      proof (cases "t ! pos = quote")
        case True
        with il nb show ?thesis by (simp add: jsx_skipString_loop.simps [of t quote pos])
      next
        case nq: False
        show ?thesis
        proof (cases "t ! pos = NEWLINE \<and> quote \<noteq> BACKTICK")
          case True
          with il nb nq show ?thesis by (simp add: jsx_skipString_loop.simps [of t quote pos])
        next
          case nn: False
          show ?thesis
          proof (cases "quote = BACKTICK \<and> t ! pos = CHR ''$'' \<and> charAt t (pos + 1) = Some CHR ''{''")
            case True
            have "pos + 2 \<le> jsx_skipInterpolation t (pos + 2) 1" by (rule jsx_skipInterpolation_ge)
            also have "\<dots> \<le> jsx_skipString_loop t quote (jsx_skipInterpolation t (pos + 2) 1)"
              by (rule "1.IH"(2) [OF il nb nq nn True])
            finally have "pos + 2 \<le> jsx_skipString_loop t quote (jsx_skipInterpolation t (pos + 2) 1)" .
            moreover have "jsx_skipString_loop t quote pos =
                jsx_skipString_loop t quote (jsx_skipInterpolation t (pos + 2) 1)"
              using il nb nq nn True by (subst jsx_skipString_loop.simps) simp
            ultimately show ?thesis by simp
          next
            case False
            have "pos + 1 \<le> jsx_skipString_loop t quote (pos + 1)"
              by (rule "1.IH"(3) [OF il nb nq nn False])
            moreover have "jsx_skipString_loop t quote pos = jsx_skipString_loop t quote (pos + 1)"
              using il nb nq nn False by (subst jsx_skipString_loop.simps) auto
            ultimately show ?thesis by simp
          qed
        qed
      qed
    qed
  qed
qed

lemma jsx_skipString_gt: "pos < jsx_skipString t pos quote"
  using jsx_skipString_loop_ge [of "pos + 1" t quote] by (simp add: jsx_skipString_def)

lemma jsx_skipString_measure:
  "pos < length t \<Longrightarrow> length t - jsx_skipString t pos quote < length t - pos"
  using jsx_skipString_gt [of pos t quote] by linarith

subsection \<open>skipJsxExpression\<close>

function skipJsxExpression_loop :: "string \<Rightarrow> nat \<Rightarrow> int \<Rightarrow> nat" where
  "skipJsxExpression_loop text i d =
     (if i < length text \<and> d > 0 then
        (if text ! i = CHR ''{'' then skipJsxExpression_loop text (i + 1) (d + 1)
         else if text ! i = CHR ''}'' then skipJsxExpression_loop text (i + 1) (d - 1)
         else if text ! i = DQUOTE \<or> text ! i = SQUOTE \<or> text ! i = BACKTICK
           then skipJsxExpression_loop text (jsx_skipString text i (text ! i)) d
         else skipJsxExpression_loop text (i + 1) d)
      else i)"
  by pat_completeness auto
termination
  by (relation "measure (\<lambda>(text, i, d). length text - i)")
     (auto simp: jsx_skipString_measure)

declare skipJsxExpression_loop.simps [simp del]

definition skipJsxExpression :: "string \<Rightarrow> nat \<Rightarrow> nat" where
  "skipJsxExpression text pos =
     (if charAt text pos \<noteq> Some CHR ''{'' then pos + 1
      else skipJsxExpression_loop text (pos + 1) 1)"

lemma skipJsxExpression_loop_ge: "i \<le> skipJsxExpression_loop t i d"
proof (induction t i d rule: skipJsxExpression_loop.induct)
  case (1 t i d)
  show ?case
  proof (cases "i < length t \<and> d > 0")
    case False
    then show ?thesis by (auto simp: skipJsxExpression_loop.simps [of t i d])
  next
    case True
    note c = True
    show ?thesis
    proof (cases "t ! i = CHR ''{''")
      case True
      with c "1.IH"(1) have "i + 1 \<le> skipJsxExpression_loop t i d"
        by (simp add: skipJsxExpression_loop.simps [of t i d])
      then show ?thesis by simp
    next
      case no: False
      show ?thesis
      proof (cases "t ! i = CHR ''}''")
        case True
        with c no "1.IH"(2) have "i + 1 \<le> skipJsxExpression_loop t i d"
          by (simp add: skipJsxExpression_loop.simps [of t i d])
        then show ?thesis by simp
      next
        case nc: False
        show ?thesis
        proof (cases "t ! i = DQUOTE \<or> t ! i = SQUOTE \<or> t ! i = BACKTICK")
          case True
          have "i < jsx_skipString t i (t ! i)" by (rule jsx_skipString_gt)
          also have "\<dots> \<le> skipJsxExpression_loop t (jsx_skipString t i (t ! i)) d"
            by (rule "1.IH"(3) [OF c no nc True])
          finally show ?thesis
            using c no nc True by (simp add: skipJsxExpression_loop.simps [of t i d])
        next
          case False
          have "i + 1 \<le> skipJsxExpression_loop t (i + 1) d"
            by (rule "1.IH"(4) [OF c no nc False])
          then show ?thesis
            using c no nc False by (simp add: skipJsxExpression_loop.simps [of t i d])
        qed
      qed
    qed
  qed
qed

lemma skipJsxExpression_gt: "pos < skipJsxExpression t pos"
  using skipJsxExpression_loop_ge [of "pos + 1" t 1] by (simp add: skipJsxExpression_def)

lemma skipJsxExpression_measure:
  "pos < length t \<Longrightarrow> length t - skipJsxExpression t pos < length t - pos"
  using skipJsxExpression_gt [of pos t] by linarith

subsection \<open>parseOpeningTag and parseClosingTag\<close>

text \<open>The classes \<open>[a-zA-Z_]\<close> and \<open>[a-zA-Z0-9._-]\<close>.\<close>

definition isJsxNameStart :: "char \<Rightarrow> bool" where
  "isJsxNameStart c = (isLetter c \<or> c = CHR ''_'')"

definition isJsxNameChar :: "char \<Rightarrow> bool" where
  "isJsxNameChar c = (isLetter c \<or> isDigit c \<or> c = CHR ''.'' \<or> c = CHR ''_'' \<or> c = CHR ''-'')"

record OpeningTag =
  ot_tagName :: string
  ot_nameStart :: nat
  ot_nameEnd :: nat
  ot_end :: nat
  ot_selfClosing :: bool

text \<open>The loop of \<open>parseOpeningTag\<close> that looks for the end of the tag: the end and \<open>selfClosing\<close>.\<close>

function parseOpeningTag_loop :: "string \<Rightarrow> nat \<Rightarrow> bool \<Rightarrow> char option \<Rightarrow> (nat \<times> bool) option" where
  "parseOpeningTag_loop text i inString stringChar =
     (if i < length text then
        (if inString then
           (if Some (text ! i) = stringChar \<and> charAtI text (int i - 1) \<noteq> Some BACKSLASH
            then parseOpeningTag_loop text (i + 1) False stringChar
            else parseOpeningTag_loop text (i + 1) True stringChar)
         else if text ! i = DQUOTE \<or> text ! i = SQUOTE \<or> text ! i = CHR ''{'' then
           (if text ! i = CHR ''{''
            then parseOpeningTag_loop text (skipJsxExpression text i) False stringChar
            else parseOpeningTag_loop text (i + 1) True (Some (text ! i)))
         else if text ! i = CHR ''/'' \<and> charAt text (i + 1) = Some CHR ''>'' then Some (i + 2, True)
         else if text ! i = CHR ''>'' then Some (i + 1, False)
         else if text ! i = CHR ''<'' then None
         else parseOpeningTag_loop text (i + 1) False stringChar)
      else None)"
  by pat_completeness auto
termination
  by (relation "measure (\<lambda>(text, i, inString, stringChar). length text - i)")
     (auto simp: skipJsxExpression_measure)

declare parseOpeningTag_loop.simps [simp del]

definition parseOpeningTag :: "string \<Rightarrow> nat \<Rightarrow> OpeningTag option" where
  "parseOpeningTag text pos =
     (if charAt text pos \<noteq> Some CHR ''<'' then None
      else
        (let nameStart = pos + 1 in
         if \<not> testClass isJsxNameStart (charAt text nameStart) then None
         else
           (let nameEnd' = skipWhile isJsxNameChar text nameStart;
                name = slice text nameStart nameEnd'
            in (case parseOpeningTag_loop text nameEnd' False None of
                  None \<Rightarrow> None
                | Some (e, selfClosing) \<Rightarrow>
                    Some \<lparr>ot_tagName = name, ot_nameStart = nameStart, ot_nameEnd = nameEnd',
                          ot_end = e, ot_selfClosing = selfClosing\<rparr>))))"

record ClosingTag =
  ct_tagName :: string
  ct_nameStart :: nat
  ct_nameEnd :: nat
  ct_end :: nat

definition parseClosingTag :: "string \<Rightarrow> nat \<Rightarrow> ClosingTag option" where
  "parseClosingTag text pos =
     (if charAt text pos \<noteq> Some CHR ''<'' \<or> charAt text (pos + 1) \<noteq> Some CHR ''/'' then None
      else
        (let nameStart = pos + 2;
             actualNameStart = skipWhile isSpace text nameStart
         in if \<not> testClass isJsxNameStart (charAt text actualNameStart) then None
            else
              (let nameEnd = skipWhile isJsxNameChar text actualNameStart;
                   tagName = slice text actualNameStart nameEnd;
                   i = skipWhile isSpace text nameEnd
               in if charAt text i \<noteq> Some CHR ''>'' then None
                  else Some \<lparr>ct_tagName = tagName, ct_nameStart = actualNameStart,
                             ct_nameEnd = nameEnd, ct_end = i + 1\<rparr>)))"

subsection \<open>isInsideJsxTag, isObjectContext, findMatchingOpenTag, matchPropertyKey\<close>

definition isInsideJsxTag :: "string \<Rightarrow> nat \<Rightarrow> bool" where
  "isInsideJsxTag text pos = False"

definition jsx_objectContextChars :: "char list" where
  "jsx_objectContextChars = [CHR ''='', CHR '':'', CHR ''('', CHR ''['', CHR '','', CHR ''?'', CHR ''('']"

definition jsx_isObjectContext :: "string \<Rightarrow> nat \<Rightarrow> bool" where
  "jsx_isObjectContext text position =
     (let i = skipSpaceBack text (int position - 1) in
      if i < 0 then False
      else if charAtI text i = Some CHR ''>'' \<and> i > 0 \<and> charAtI text (i - 1) = Some CHR ''=''
        then True
      else if (case charAtI text i of Some c \<Rightarrow> c \<in> set jsx_objectContextChars | None \<Rightarrow> False)
        then True
      else if getKeywordBefore text i = Some ''return'' then True
      else False)"

function jsx_findMatchingOpenTag_loop :: "string list \<Rightarrow> string \<Rightarrow> int \<Rightarrow> int" where
  "jsx_findMatchingOpenTag_loop stack name i =
     (if i \<ge> 0 then
        (if stack ! nat i = name then i
         else jsx_findMatchingOpenTag_loop stack name (i - 1))
      else -1)"
  by pat_completeness auto
termination
  by (relation "measure (\<lambda>(stack, name, i). nat (i + 1))") auto

declare jsx_findMatchingOpenTag_loop.simps [simp del]

definition jsx_findMatchingOpenTag :: "string list \<Rightarrow> string \<Rightarrow> int" where
  "jsx_findMatchingOpenTag stack name =
     jsx_findMatchingOpenTag_loop stack name (int (length stack) - 1)"

text \<open>The classes \<open>[a-zA-Z_$]\<close> and \<open>[a-zA-Z0-9_$]\<close>.\<close>

definition isIdentStart :: "char \<Rightarrow> bool" where
  "isIdentStart c = (isLetter c \<or> c = CHR ''_'' \<or> c = CHR ''$'')"

definition isIdentChar :: "char \<Rightarrow> bool" where
  "isIdentChar c = (isLetter c \<or> isDigit c \<or> c = CHR ''_'' \<or> c = CHR ''$'')"

text \<open>The test \<open>text[pos] === ':' && text[pos + 1] !== ':'\<close>.\<close>

definition colonNotDouble :: "string \<Rightarrow> nat \<Rightarrow> bool" where
  "colonNotDouble text pos =
     (charAt text pos = Some CHR '':'' \<and> charAt text (pos + 1) \<noteq> Some CHR '':'')"

definition jsx_matchPropertyKey :: "string \<Rightarrow> nat \<Rightarrow> (nat \<times> nat) option" where
  "jsx_matchPropertyKey text pos0 =
     (let pos = skipWhile isSpace text pos0 in
      if pos \<ge> length text then None
      else if testClass isIdentStart (charAt text pos) then
        (let start = pos;
             end = skipWhile isIdentChar text pos;
             pos' = skipWhile isSpace text end
         in if colonNotDouble text pos' then Some (start, end) else None)
      else None)"

subsection \<open>tokenize\<close>

record jsx_state =
  js_i :: nat
  js_tokens :: "Token list"
  js_depth :: int
  js_tagStack :: "string list"
  js_inJsxExpression :: bool
  js_jsxExpressionBraceDepth :: int
  js_objectBraceStack :: "int list"

text \<open>The body of \<open>if (inJsxExpression) { ... }\<close>; every path ends in \<open>continue\<close>.\<close>

definition tokenize_expression :: "config \<Rightarrow> string \<Rightarrow> jsx_state \<Rightarrow> jsx_state" where
  "tokenize_expression cfg text st =
     (let i = js_i st; depth = js_depth st in
      if text ! i = CHR ''{'' then
        (let st1 =
           (if objectBracesEnabled cfg \<and> jsx_isObjectContext text i
            then st\<lparr>js_objectBraceStack := js_objectBraceStack st @ [depth],
                    js_tokens := js_tokens st @ [mkToken ObjectBrace (int i) (int i + 1) depth None],
                    js_depth := depth + 1\<rparr>
            else st)
         in st1\<lparr>js_jsxExpressionBraceDepth := js_jsxExpressionBraceDepth st + 1, js_i := i + 1\<rparr>)
      else if text ! i = CHR ''}'' then
        (let braceDepth' = js_jsxExpressionBraceDepth st - 1;
             st1 = st\<lparr>js_jsxExpressionBraceDepth := braceDepth'\<rparr>;
             st2 =
               (if braceDepth' = 0
                then st1\<lparr>js_inJsxExpression := False,
                         js_tokens := js_tokens st @
                           [mkToken ExpressionEnd (int i) (int i + 1) (depth - 1) None]\<rparr>
                else if length (js_objectBraceStack st) > 0
                then st1\<lparr>js_objectBraceStack := butlast (js_objectBraceStack st),
                         js_depth := depth - 1,
                         js_tokens := js_tokens st @
                           [mkToken ObjectBrace (int i) (int i + 1) (last (js_objectBraceStack st)) None]\<rparr>
                else st1)
         in st2\<lparr>js_i := i + 1\<rparr>)
      else
        (case (if colorizeKeys cfg \<and> length (js_objectBraceStack st) > 0
               then jsx_matchPropertyKey text i else None) of
           Some (kstart, kend) \<Rightarrow>
             st\<lparr>js_tokens := js_tokens st @ [mkToken PropertyKey (int kstart) (int kend) (depth - 1) None],
                js_i := kend\<rparr>
         | None \<Rightarrow>
             if text ! i = DQUOTE \<or> text ! i = SQUOTE \<or> text ! i = BACKTICK
             then st\<lparr>js_i := jsx_skipString text i (text ! i)\<rparr>
             else st\<lparr>js_i := i + 1\<rparr>))"

text \<open>The closing tag branch, taken when \<open>text[i + 1] === '/'\<close> and the tag parses.\<close>

definition tokenize_closeTag :: "jsx_state \<Rightarrow> ClosingTag \<Rightarrow> jsx_state" where
  "tokenize_closeTag st closeTag =
     (let i = js_i st;
          matchIndex = jsx_findMatchingOpenTag (js_tagStack st) (ct_tagName closeTag);
          poppedCount = int (length (js_tagStack st)) - matchIndex;
          tagStack' = (if matchIndex \<noteq> -1 then take (nat matchIndex) (js_tagStack st)
                       else js_tagStack st);
          depth' = (if matchIndex \<noteq> -1 then js_depth st - poppedCount else js_depth st)
      in st\<lparr>js_tagStack := tagStack', js_depth := depth',
             js_tokens := js_tokens st @
               [mkToken JsxClose (int i) (int i + 2) depth' (Some (ct_tagName closeTag)),
                mkToken JsxClose (int (ct_nameStart closeTag)) (int (ct_nameEnd closeTag)) depth'
                  (Some (ct_tagName closeTag)),
                mkToken JsxClose (int (ct_end closeTag) - 1) (int (ct_end closeTag)) depth' None],
             js_i := ct_end closeTag\<rparr>)"

definition tokenize_openTag :: "jsx_state \<Rightarrow> OpeningTag \<Rightarrow> jsx_state" where
  "tokenize_openTag st openTag =
     (let i = js_i st; currentDepth = js_depth st;
          toks = js_tokens st @
            [mkToken JsxOpenStart (int i) (int i + 1) currentDepth (Some (ot_tagName openTag)),
             mkToken JsxOpenStart (int (ot_nameStart openTag)) (int (ot_nameEnd openTag)) currentDepth
               (Some (ot_tagName openTag))]
      in if ot_selfClosing openTag
         then st\<lparr>js_tokens := toks @
                    [mkToken JsxSelfClose (int (ot_end openTag) - 2) (int (ot_end openTag))
                       currentDepth None],
                  js_i := ot_end openTag\<rparr>
         else st\<lparr>js_tokens := toks @
                    [mkToken JsxOpenEnd (int (ot_end openTag) - 1) (int (ot_end openTag))
                       currentDepth None],
                  js_tagStack := js_tagStack st @ [ot_tagName openTag],
                  js_depth := currentDepth + 1,
                  js_i := ot_end openTag\<rparr>)"

text \<open>What follows the tag branches: expression start, braces and keys outside markup.\<close>

definition tokenize_rest :: "config \<Rightarrow> string \<Rightarrow> jsx_state \<Rightarrow> jsx_state" where
  "tokenize_rest cfg text st =
     (let i = js_i st; depth = js_depth st in
      if text ! i = CHR ''{'' \<and> length (js_tagStack st) > 0 then
        st\<lparr>js_inJsxExpression := True, js_jsxExpressionBraceDepth := 1,
           js_tokens := js_tokens st @ [mkToken ExpressionStart (int i) (int i + 1) (depth - 1) None],
           js_i := i + 1\<rparr>
      else if objectBracesEnabled cfg \<and> text ! i = CHR ''{'' \<and> length (js_tagStack st) = 0 then
        (if jsx_isObjectContext text i
         then st\<lparr>js_tokens := js_tokens st @ [mkToken ObjectBrace (int i) (int i + 1) depth None],
                 js_objectBraceStack := js_objectBraceStack st @ [depth],
                 js_depth := depth + 1, js_i := i + 1\<rparr>
         else st\<lparr>js_i := i + 1\<rparr>)
      else if objectBracesEnabled cfg \<and> text ! i = CHR ''}'' \<and> length (js_tagStack st) = 0
              \<and> length (js_objectBraceStack st) > 0 then
        st\<lparr>js_objectBraceStack := butlast (js_objectBraceStack st),
           js_depth := depth - 1,
           js_tokens := js_tokens st @
             [mkToken ObjectBrace (int i) (int i + 1) (last (js_objectBraceStack st)) None],
           js_i := i + 1\<rparr>
      else
        (case (if colorizeKeys cfg \<and> length (js_tagStack st) = 0
                  \<and> length (js_objectBraceStack st) > 0
               then jsx_matchPropertyKey text i else None) of
           Some (kstart, kend) \<Rightarrow>
             st\<lparr>js_tokens := js_tokens st @ [mkToken PropertyKey (int kstart) (int kend) (depth - 1) None],
                js_i := kend\<rparr>
         | None \<Rightarrow> st\<lparr>js_i := i + 1\<rparr>))"

text \<open>The branch \<open>if (text[i] === '<')\<close>, which falls through when no tag parses.\<close>

definition tokenize_markup :: "config \<Rightarrow> string \<Rightarrow> jsx_state \<Rightarrow> jsx_state" where
  "tokenize_markup cfg text st =
     (let i = js_i st in
      if text ! i = CHR ''<'' then
        (case (if charAt text (i + 1) = Some CHR ''/'' then parseClosingTag text i else None) of
           Some closeTag \<Rightarrow> tokenize_closeTag st closeTag
         | None \<Rightarrow>
             (case parseOpeningTag text i of
                Some openTag \<Rightarrow> tokenize_openTag st openTag
              | None \<Rightarrow> tokenize_rest cfg text st))
      else tokenize_rest cfg text st)"

text \<open>One iteration of the \<open>while (i < text.length)\<close> loop of \<open>tokenize\<close>.\<close>

definition tokenize_step :: "config \<Rightarrow> string \<Rightarrow> jsx_state \<Rightarrow> jsx_state" where
  "tokenize_step cfg text st =
     (let i = js_i st in
      if text ! i = CHR ''/'' \<and> i + 1 < length text \<and> text ! (i + 1) = CHR ''/''
        then st\<lparr>js_i := skipToEndOfLine text i\<rparr>
      else if text ! i = CHR ''/'' \<and> i + 1 < length text \<and> text ! (i + 1) = CHR ''*''
        then st\<lparr>js_i := skipBlockComment text i\<rparr>
      else if (text ! i = DQUOTE \<or> text ! i = SQUOTE \<or> text ! i = BACKTICK)
              \<and> \<not> isInsideJsxTag text i
        then st\<lparr>js_i := jsx_skipString text i (text ! i)\<rparr>
      else if js_inJsxExpression st then tokenize_expression cfg text st
      else tokenize_markup cfg text st)"

subsection \<open>The loop of tokenize\<close>

text \<open>Every iteration moves the cursor forward, so the loop ends.\<close>

lemma skipWhile_ge: "pos \<le> skipWhile P t pos"
  by (simp add: skipWhile_def)

lemma skipWhile_gt: "pos < length t \<Longrightarrow> P (t ! pos) \<Longrightarrow> pos < skipWhile P t pos"
  by (cases "drop pos t") (auto simp: skipWhile_def hd_drop_conv_nth dest: arg_cong [where f = hd])

lemma skipToEndOfLine_gt: "pos < skipToEndOfLine t pos"
  using skipWhile_ge [of pos "\<lambda>c. c \<noteq> NEWLINE" t] by (simp add: skipToEndOfLine_def)

lemma skipBlockComment_loop_ge:
  "skipBlockComment_loop t p = length t \<or> p + 2 \<le> skipBlockComment_loop t p"
proof (induction t p rule: skipBlockComment_loop.induct)
  case (1 t p)
  show ?case
  proof (cases "int p < int (length t) - 1")
    case False
    then show ?thesis by (simp add: skipBlockComment_loop.simps [of t p])
  next
    case True
    note c = True
    show ?thesis
    proof (cases "t ! p = CHR ''*'' \<and> t ! (p + 1) = CHR ''/''")
      case True
      with c show ?thesis by (simp add: skipBlockComment_loop.simps [of t p])
    next
      case False
      have eq: "skipBlockComment_loop t p = skipBlockComment_loop t (p + 1)"
        using c False by (subst skipBlockComment_loop.simps) auto
      from "1.IH" [OF c False] show ?thesis unfolding eq by auto
    qed
  qed
qed

lemma skipBlockComment_gt: "i + 1 < length t \<Longrightarrow> i < skipBlockComment t i"
  using skipBlockComment_loop_ge [of t "i + 2"] by (auto simp: skipBlockComment_def)

lemma jsx_matchPropertyKey_Some:
  assumes "jsx_matchPropertyKey t pos0 = Some (s, e)"
  shows "pos0 \<le> s \<and> s < e"
proof -
  define pos where "pos = skipWhile isSpace t pos0"
  have p: "pos < length t" "testClass isIdentStart (charAt t pos)" "s = pos"
    "e = skipWhile isIdentChar t pos"
    using assms by (auto simp: jsx_matchPropertyKey_def Let_def pos_def split: if_splits)
  have "isIdentChar (t ! pos)"
    using p(1,2) by (auto simp: testClass_def charAt_def isIdentStart_def isIdentChar_def)
  from skipWhile_gt [OF p(1), of isIdentChar, OF this] p(3,4) skipWhile_ge [of pos0 isSpace t]
  show ?thesis by (simp add: pos_def)
qed

lemma parseClosingTag_Some:
  assumes "parseClosingTag t pos = Some ct"
  shows "pos < ct_end ct"
proof -
  define a where "a = skipWhile isSpace t (pos + 2)"
  define b where "b = skipWhile isJsxNameChar t a"
  define c where "c = skipWhile isSpace t b"
  have "ct_end ct = c + 1"
    using assms by (auto simp: parseClosingTag_def Let_def a_def b_def c_def split: if_splits)
  moreover have "pos + 2 \<le> a" "a \<le> b" "b \<le> c"
    unfolding a_def b_def c_def by (rule skipWhile_ge)+
  ultimately show ?thesis by simp
qed

lemma parseOpeningTag_loop_Some:
  "parseOpeningTag_loop t i inString stringChar = Some (e, sc) \<Longrightarrow> i < e"
proof (induction t i inString stringChar rule: parseOpeningTag_loop.induct)
  case (1 t i inString stringChar)
  note simps = parseOpeningTag_loop.simps [of t i]
  show ?case
  proof (cases "i < length t")
    case False
    with "1.prems" show ?thesis by (simp add: simps)
  next
    case True
    note il = True
    show ?thesis
    proof (cases inString)
      case True
      show ?thesis
      proof (cases "Some (t ! i) = stringChar \<and> charAtI t (int i - 1) \<noteq> Some BACKSLASH")
        case c: True
        with il True "1.prems" have "parseOpeningTag_loop t (i + 1) False stringChar = Some (e, sc)"
          by (simp add: simps)
        from "1.IH"(1) [OF il True c this] show ?thesis by simp
      next
        case c: False
        with il True "1.prems" have "parseOpeningTag_loop t (i + 1) True stringChar = Some (e, sc)"
          by (simp add: simps del: not_Some_eq)
        from "1.IH"(2) [OF il True c this] show ?thesis by simp
      qed
    next
      case False
      note ns = False
      show ?thesis
      proof (cases "t ! i = DQUOTE \<or> t ! i = SQUOTE \<or> t ! i = CHR ''{''")
        case q: True
        show ?thesis
        proof (cases "t ! i = CHR ''{''")
          case True
          with il ns q "1.prems"
          have "parseOpeningTag_loop t (skipJsxExpression t i) False stringChar = Some (e, sc)"
            by (simp add: simps)
          from "1.IH"(3) [OF il ns q True this] skipJsxExpression_gt [of i t] show ?thesis by simp
        next
          case False
          with il ns q "1.prems"
          have "parseOpeningTag_loop t (i + 1) True (Some (t ! i)) = Some (e, sc)"
            by (simp add: simps)
          from "1.IH"(4) [OF il ns q False this] show ?thesis by simp
        qed
      next
        case q: False
        show ?thesis
        proof (cases "t ! i = CHR ''/'' \<and> charAt t (i + 1) = Some CHR ''>''")
          case True
          with il ns q "1.prems" show ?thesis by (simp add: simps)
        next
          case s: False
          show ?thesis
          proof (cases "t ! i = CHR ''>''")
            case True
            with il ns q s "1.prems" show ?thesis by (auto simp: simps split: if_splits)
          next
            case g: False
            show ?thesis
            proof (cases "t ! i = CHR ''<''")
              case True
              with il ns q s g "1.prems" show ?thesis by (auto simp: simps split: if_splits)
            next
              case l: False
              with il ns q s g "1.prems"
              have "parseOpeningTag_loop t (i + 1) False stringChar = Some (e, sc)"
                by (auto simp: simps split: if_splits)
              from "1.IH"(5) [OF il ns q s g l this] show ?thesis by simp
            qed
          qed
        qed
      qed
    qed
  qed
qed

lemma parseOpeningTag_Some:
  assumes "parseOpeningTag t pos = Some ot"
  shows "pos < ot_end ot"
proof -
  define ne where "ne = skipWhile isJsxNameChar t (pos + 1)"
  obtain e sc where l: "parseOpeningTag_loop t ne False None = Some (e, sc)" and e: "ot_end ot = e"
    using assms by (auto simp: parseOpeningTag_def Let_def ne_def split: if_splits option.splits)
  from parseOpeningTag_loop_Some [OF l] skipWhile_ge [of "pos + 1" isJsxNameChar t] e
  show ?thesis by (simp add: ne_def)
qed

lemma tokenize_expression_advances: "js_i st < js_i (tokenize_expression cfg t st)"
  using jsx_skipString_gt [of "js_i st" t "t ! js_i st"]
  by (auto simp: tokenize_expression_def Let_def split: option.splits if_splits
           dest!: jsx_matchPropertyKey_Some)

lemma tokenize_rest_advances: "js_i st < js_i (tokenize_rest cfg t st)"
  by (auto simp: tokenize_rest_def Let_def split: option.splits if_splits
           dest!: jsx_matchPropertyKey_Some)

lemma tokenize_markup_advances: "js_i st < js_i (tokenize_markup cfg t st)"
  using tokenize_rest_advances [of st cfg t]
  by (auto simp: tokenize_markup_def tokenize_closeTag_def tokenize_openTag_def Let_def
           split: option.splits if_splits
           dest!: parseClosingTag_Some parseOpeningTag_Some)

lemma tokenize_step_advances:
  "js_i st < length t \<Longrightarrow> js_i st < js_i (tokenize_step cfg t st)"
  using tokenize_expression_advances [of st cfg t] tokenize_markup_advances [of st cfg t]
    skipToEndOfLine_gt [of "js_i st" t] skipBlockComment_gt [of "js_i st" t]
    jsx_skipString_gt [of "js_i st" t "t ! js_i st"]
  by (auto simp: tokenize_step_def Let_def)

function tokenize_loop :: "config \<Rightarrow> string \<Rightarrow> jsx_state \<Rightarrow> jsx_state" where
  "tokenize_loop cfg text st =
     (if js_i st < length text then tokenize_loop cfg text (tokenize_step cfg text st) else st)"
  by pat_completeness auto
termination
proof (relation "measure (\<lambda>(cfg, text, st). length text - js_i st)", goal_cases)
  case 1
  show ?case by simp
next
  case (2 cfg t st)
  with tokenize_step_advances [of st t cfg] show ?case by simp
qed

declare tokenize_loop.simps [simp del]

definition jsx_initial :: jsx_state where
  "jsx_initial =
     \<lparr>js_i = 0, js_tokens = [], js_depth = 0, js_tagStack = [], js_inJsxExpression = False,
      js_jsxExpressionBraceDepth = 0, js_objectBraceStack = []\<rparr>"

text \<open>The configuration's defaults (both \<open>objectBraces\<close> settings are on).\<close>

definition defaultConfig :: config where
  "defaultConfig = \<lparr>colorizeKeys = True, objectBracesEnabled = True\<rparr>"

definition tokenize :: "config \<Rightarrow> string \<Rightarrow> Token list" where
  "tokenize cfg text = js_tokens (tokenize_loop cfg text jsx_initial)"

definition jsx_parse :: "config \<Rightarrow> string \<Rightarrow> ColoredRange list" where
  "jsx_parse cfg text =
     map (\<lambda>token. createColoredRange (tok_start token) (tok_end token) (tok_depth token))
       (tokenize cfg text)"

section \<open>ObjectParser\<close>

definition BLOCK_KEYWORDS :: "string list" where
  "BLOCK_KEYWORDS =
     [''if'', ''else'', ''for'', ''while'', ''do'', ''switch'', ''try'', ''catch'', ''finally'',
      ''with'', ''class'', ''function'', ''async'', ''get'', ''set'']"

definition OBJECT_CONTEXT_CHARS :: "char list" where
  "OBJECT_CONTEXT_CHARS = [CHR ''='', CHR '':'', CHR ''('', CHR ''['', CHR '','', CHR ''?'']"

definition OBJECT_CONTEXT_KEYWORDS :: "string list" where
  "OBJECT_CONTEXT_KEYWORDS = [''return'', ''=>'']"

record BraceMatch =
  bm_position :: nat
  bm_isObject :: bool
  bm_depth :: int

record PropertyKeyMatch =
  pk_start :: nat
  pk_end :: nat
  pk_depth :: int

subsection \<open>skipString\<close>

text \<open>
  The template literal loop of \<open>skipString\<close> and its loop over a \<open>${...}\<close> segment, which
  calls \<open>skipString\<close> again on a nested template literal (\<open>obj_skipTemplate\<close> starts after
  the opening quote, as the loop does).
\<close>

function obj_skipTemplate :: "string \<Rightarrow> nat \<Rightarrow> nat"
  and obj_skipInterpolation :: "string \<Rightarrow> nat \<Rightarrow> int \<Rightarrow> nat" where
  "obj_skipTemplate text pos =
     (if pos < length text then
        (if text ! pos = BACKSLASH then obj_skipTemplate text (pos + 2)
         else if text ! pos = BACKTICK then pos + 1
         else if text ! pos = CHR ''$'' \<and> charAt text (pos + 1) = Some CHR ''{''
           then obj_skipTemplate text (obj_skipInterpolation text (pos + 2) 1)
         else obj_skipTemplate text (pos + 1))
      else pos)"
| "obj_skipInterpolation text pos d =
     (if pos < length text \<and> d > 0 then
        (if text ! pos = CHR ''{'' then obj_skipInterpolation text (pos + 1) (d + 1)
         else if text ! pos = CHR ''}'' then obj_skipInterpolation text (pos + 1) (d - 1)
         else if text ! pos = BACKTICK
           then obj_skipInterpolation text (obj_skipTemplate text (pos + 1)) d
         else obj_skipInterpolation text (pos + 1) d)
      else pos)"
  by pat_completeness auto

lemma obj_skip_ge_dom:
  "obj_skipTemplate_obj_skipInterpolation_dom (Inl (t, pos)) \<Longrightarrow> pos \<le> obj_skipTemplate t pos"
  "obj_skipTemplate_obj_skipInterpolation_dom (Inr (t, pos, d)) \<Longrightarrow>
     pos \<le> obj_skipInterpolation t pos d"
proof (induction t pos and t pos d rule: obj_skipTemplate_obj_skipInterpolation.pinduct)
  case (1 t pos)
  show ?case
    using "1.IH" "1.hyps"
    by (subst obj_skipTemplate.psimps [OF "1.hyps"])
       (auto intro: order_trans [of pos "pos + 2"] order_trans [of pos "pos + 1"]
             dest: Suc_leD add_leD1)
next
  case (2 t pos d)
  show ?case
    using "2.IH" "2.hyps"
    by (subst obj_skipInterpolation.psimps [OF "2.hyps"])
       (auto intro: order_trans [of pos "pos + 2"] order_trans [of pos "pos + 1"]
             dest: Suc_leD add_leD1)
qed

termination obj_skipTemplate
  apply (relation "measure (\<lambda>x. case x of Inl (t, pos) \<Rightarrow> length t - pos
                                 | Inr (t, pos, d) \<Rightarrow> length t - pos)")
  apply (auto dest!: obj_skip_ge_dom)
  done

declare obj_skipTemplate.simps [simp del]
declare obj_skipInterpolation.simps [simp del]

text \<open>The loop over a regular string (the test \<open>quote !== '`'\<close> is kept as written).\<close>

function obj_skipRegular :: "string \<Rightarrow> char \<Rightarrow> nat \<Rightarrow> nat" where
  "obj_skipRegular text quote pos =
     (if pos < length text then
        (if text ! pos = BACKSLASH then obj_skipRegular text quote (pos + 2)
         else if text ! pos = quote then pos + 1
         else if text ! pos = NEWLINE \<and> quote \<noteq> BACKTICK then pos
         else obj_skipRegular text quote (pos + 1))
      else pos)"
  by pat_completeness auto
termination
  by (relation "measure (\<lambda>(text, quote, pos). length text - pos)") auto

declare obj_skipRegular.simps [simp del]

definition obj_skipString :: "string \<Rightarrow> nat \<Rightarrow> char \<Rightarrow> nat" where
  "obj_skipString text pos quote =
     (if quote = BACKTICK then obj_skipTemplate text (pos + 1)
      else obj_skipRegular text quote (pos + 1))"

subsection \<open>isRegexContext and skipRegex\<close>

definition regexContextChars :: "char list" where
  "regexContextChars =
     [CHR ''('', CHR ''['', CHR ''{'', CHR '','', CHR '';'', CHR '':'', CHR ''='', CHR ''!'',
      CHR ''&'', CHR ''|'', CHR ''?'', CHR ''+'', CHR ''-'', CHR ''~'', CHR ''^'']"

definition regexContextKeywords :: "string list" where
  "regexContextKeywords =
     [''return'', ''case'', ''throw'', ''in'', ''typeof'', ''instanceof'', ''void'', ''delete'',
      ''new'']"

definition isRegexContext :: "string \<Rightarrow> nat \<Rightarrow> bool" where
  "isRegexContext text pos =
     (let i = skipSpaceBack text (int pos - 1) in
      if i < 0 then True
      else if (case charAtI text i of Some c \<Rightarrow> c \<in> set regexContextChars | None \<Rightarrow> False)
        then True
      else (case getKeywordBefore text i of
              Some keyword \<Rightarrow> keyword \<noteq> [] \<and> keyword \<in> set regexContextKeywords
            | None \<Rightarrow> False))"

text \<open>The loop of \<open>skipRegex\<close> over a character class, up to the \<open>]\<close>.\<close>

function skipRegex_class :: "string \<Rightarrow> nat \<Rightarrow> nat" where
  "skipRegex_class text pos =
     (if pos < length text \<and> text ! pos \<noteq> CHR '']'' then
        (if text ! pos = BACKSLASH then skipRegex_class text (pos + 2)
         else skipRegex_class text (pos + 1))
      else pos)"
  by pat_completeness auto
termination
  by (relation "measure (\<lambda>(text, pos). length text - pos)") auto

declare skipRegex_class.simps [simp del]

lemma skipRegex_class_ge: "pos \<le> skipRegex_class t pos"
proof (induction t pos rule: skipRegex_class.induct)
  case (1 t pos)
  show ?case
  proof (cases "pos < length t \<and> t ! pos \<noteq> CHR '']''")
    case False
    then show ?thesis by (auto simp: skipRegex_class.simps [of t pos])
  next
    case True
    show ?thesis
    proof (cases "t ! pos = BACKSLASH")
      case b: True
      have "pos + 2 \<le> skipRegex_class t (pos + 2)" by (rule "1.IH"(1) [OF True b])
      moreover have "skipRegex_class t pos = skipRegex_class t (pos + 2)"
        using True b by (subst skipRegex_class.simps) auto
      ultimately show ?thesis by simp
    next
      case b: False
      have "pos + 1 \<le> skipRegex_class t (pos + 1)" by (rule "1.IH"(2) [OF True b])
      moreover have "skipRegex_class t pos = skipRegex_class t (pos + 1)"
        using True b by (subst skipRegex_class.simps) auto
      ultimately show ?thesis by simp
    qed
  qed
qed

lemma skipRegex_class_measure:
  "pos < length t \<Longrightarrow> length t - Suc (skipRegex_class t (Suc pos)) < length t - pos"
  using skipRegex_class_ge [of "Suc pos" t] by linarith

text \<open>The class \<open>[gimsuy]\<close> of the flags.\<close>

definition isRegexFlag :: "char \<Rightarrow> bool" where
  "isRegexFlag c = (c \<in> set ''gimsuy'')"

function skipRegex_loop :: "string \<Rightarrow> nat \<Rightarrow> nat" where
  "skipRegex_loop text pos =
     (if pos < length text then
        (if text ! pos = BACKSLASH then skipRegex_loop text (pos + 2)
         else if text ! pos = CHR ''/'' then skipWhile isRegexFlag text (pos + 1)
         else if text ! pos = NEWLINE then pos
         else if text ! pos = CHR ''[''
           then skipRegex_loop text (skipRegex_class text (pos + 1) + 1)
         else skipRegex_loop text (pos + 1))
      else pos)"
  by pat_completeness auto
termination
  by (relation "measure (\<lambda>(text, pos). length text - pos)")
     (auto simp: skipRegex_class_measure)

declare skipRegex_loop.simps [simp del]

definition skipRegex :: "string \<Rightarrow> nat \<Rightarrow> nat" where
  "skipRegex text pos = skipRegex_loop text (pos + 1)"

subsection \<open>getParenContext and isObjectContext\<close>

datatype paren_context = Control | Arrow | Call | Unknown

text \<open>The backward search of the matching \<open>(\<close>; the result is the final \<open>i\<close>.\<close>

function getParenContext_loop :: "string \<Rightarrow> int \<Rightarrow> int \<Rightarrow> int" where
  "getParenContext_loop text i d =
     (if i \<ge> 0 \<and> d > 0 then
        (if charAtI text i = Some CHR '')'' then getParenContext_loop text (i - 1) (d + 1)
         else if charAtI text i = Some CHR ''('' then getParenContext_loop text (i - 1) (d - 1)
         else getParenContext_loop text (i - 1) d)
      else i)"
  by pat_completeness auto
termination
  by (relation "measure (\<lambda>(text, i, d). nat (i + 1))") auto

declare getParenContext_loop.simps [simp del]

definition getParenContext :: "string \<Rightarrow> int \<Rightarrow> paren_context" where
  "getParenContext text closeParenPos =
     (let openParenPos = getParenContext_loop text (closeParenPos - 1) 1 + 1;
          j = skipSpaceBack text (openParenPos - 1)
      in if j < 0 then Unknown
         else if (case getKeywordBefore text j of
                    Some keyword \<Rightarrow> keyword \<noteq> [] \<and> keyword \<in> set BLOCK_KEYWORDS
                  | None \<Rightarrow> False)
           then Control
         else
           (let k = skipWhile isSpace text (nat (closeParenPos + 1))
            in if int k < int (length text) - 1 \<and> text ! k = CHR ''='' \<and> text ! (k + 1) = CHR ''>''
               then Arrow else Call))"

definition obj_isObjectContext :: "string \<Rightarrow> nat \<Rightarrow> bool" where
  "obj_isObjectContext text position =
     (let i = skipSpaceBack text (int position - 1) in
      if i < 0 then False
      else if charAtI text i = Some CHR ''>'' \<and> i > 0 \<and> charAtI text (i - 1) = Some CHR ''=''
        then True
      else if (case charAtI text i of Some c \<Rightarrow> c \<in> set OBJECT_CONTEXT_CHARS | None \<Rightarrow> False)
        then True
      else if charAtI text i = Some CHR '')'' \<and> getParenContext text i = Control then False
      else if charAtI text i = Some CHR '')'' \<and>
              (getParenContext text i = Arrow \<or> getParenContext text i = Call) then True
      else
        (case getKeywordBefore text i of
           Some keyword \<Rightarrow>
             if keyword \<noteq> [] \<and> keyword \<in> set OBJECT_CONTEXT_KEYWORDS then True
             else if keyword \<noteq> [] \<and> keyword \<in> set BLOCK_KEYWORDS then False
             else False
         | None \<Rightarrow> False))"

subsection \<open>matchPropertyKey\<close>

text \<open>The loop over a quoted key, up to the closing quote.\<close>

function obj_stringKey_loop :: "string \<Rightarrow> char \<Rightarrow> nat \<Rightarrow> nat" where
  "obj_stringKey_loop text quote pos =
     (if pos < length text \<and> text ! pos \<noteq> quote then
        (if text ! pos = BACKSLASH then obj_stringKey_loop text quote (pos + 2)
         else obj_stringKey_loop text quote (pos + 1))
      else pos)"
  by pat_completeness auto
termination
  by (relation "measure (\<lambda>(text, quote, pos). length text - pos)") auto

declare obj_stringKey_loop.simps [simp del]

text \<open>The loop over a computed key \<open>[expr]\<close>.\<close>

function obj_computedKey_loop :: "string \<Rightarrow> nat \<Rightarrow> int \<Rightarrow> nat" where
  "obj_computedKey_loop text pos d =
     (if pos < length text \<and> d > 0 then
        (if text ! pos = CHR ''['' then obj_computedKey_loop text (pos + 1) (d + 1)
         else if text ! pos = CHR '']'' then obj_computedKey_loop text (pos + 1) (d - 1)
         else obj_computedKey_loop text (pos + 1) d)
      else pos)"
  by pat_completeness auto
termination
  by (relation "measure (\<lambda>(text, pos, d). length text - pos)") auto

declare obj_computedKey_loop.simps [simp del]

text \<open>
  The three attempts of \<open>matchPropertyKey\<close> share the variable \<open>pos\<close>: an attempt that
  fails leaves \<open>pos\<close> where it stopped, and the next attempt starts there. Each attempt
  gives its match, or the \<open>pos\<close> it leaves.
\<close>

definition obj_identifierKey :: "string \<Rightarrow> nat \<Rightarrow> (nat \<times> nat) + nat" where
  "obj_identifierKey text pos =
     (if testClass isIdentStart (charAt text pos) then
        (let start = pos;
             end = skipWhile isIdentChar text pos;
             pos' = skipWhile isSpace text end
         in if colonNotDouble text pos' then Inl (start, end) else Inr pos')
      else Inr pos)"

definition obj_stringKey :: "string \<Rightarrow> nat \<Rightarrow> (nat \<times> nat) + nat" where
  "obj_stringKey text pos =
     (if charAt text pos = Some DQUOTE \<or> charAt text pos = Some SQUOTE then
        (let quote = text ! pos;
             start = pos;
             pos1 = obj_stringKey_loop text quote (pos + 1)
         in if pos1 < length text then
              (let end = pos1 + 1;
                   pos2 = skipWhile isSpace text end
               in if colonNotDouble text pos2 then Inl (start, end) else Inr pos2)
            else Inr pos1)
      else Inr pos)"

definition obj_computedKey :: "string \<Rightarrow> nat \<Rightarrow> (nat \<times> nat) option" where
  "obj_computedKey text pos =
     (if charAt text pos = Some CHR ''['' then
        (let start = pos;
             end = obj_computedKey_loop text (pos + 1) 1;
             pos' = skipWhile isSpace text end
         in if colonNotDouble text pos' then Some (start, end) else None)
      else None)"

definition obj_matchPropertyKey :: "string \<Rightarrow> nat \<Rightarrow> (nat \<times> nat) option" where
  "obj_matchPropertyKey text pos0 =
     (let pos = skipWhile isSpace text pos0 in
      if pos \<ge> length text then None
      else
        (case obj_identifierKey text pos of
           Inl m \<Rightarrow> Some m
         | Inr pos1 \<Rightarrow>
             (case obj_stringKey text pos1 of
                Inl m \<Rightarrow> Some m
              | Inr pos2 \<Rightarrow> obj_computedKey text pos2)))"

subsection \<open>findObjectBracesAndKeys\<close>

record obj_state =
  o_i :: nat
  o_braces :: "BraceMatch list"
  o_propertyKeys :: "PropertyKeyMatch list"
  o_braceStack :: "(bool \<times> int) list"

text \<open>\<open>braceStack.filter(b => b.isObject).length\<close>.\<close>

definition objectFrames :: "(bool \<times> int) list \<Rightarrow> int" where
  "objectFrames braceStack = int (length (filter fst braceStack))"

text \<open>
  \<open>braceStack.pop()\<close>: the popped frame, \<open>undefined\<close> (\<^const>\<open>None\<close>) on an empty
  array, and the array left.
\<close>

definition pop :: "'a list \<Rightarrow> 'a option \<times> 'a list" where
  "pop xs = (if xs = [] then (None, []) else (Some (last xs), butlast xs))"

text \<open>The part of an iteration after the skips of comments, strings and regex literals.\<close>

definition obj_braceStep :: "config \<Rightarrow> string \<Rightarrow> obj_state \<Rightarrow> obj_state" where
  "obj_braceStep cfg text st =
     (let i = o_i st in
      if text ! i = CHR ''{'' then
        (let isObject = obj_isObjectContext text i;
             d = objectFrames (o_braceStack st)
         in st\<lparr>o_braceStack := o_braceStack st @ [(isObject, d)],
               o_braces := (if isObject
                            then o_braces st @ [\<lparr>bm_position = i, bm_isObject = True, bm_depth = d\<rparr>]
                            else o_braces st),
               o_i := i + 1\<rparr>)
      else if text ! i = CHR ''}'' then
        (case pop (o_braceStack st) of
           (context, braceStack') \<Rightarrow>
             st\<lparr>o_braceStack := braceStack',
                o_braces :=
                  (case context of
                     Some (isObject, d) \<Rightarrow>
                       if isObject
                       then o_braces st @ [\<lparr>bm_position = i, bm_isObject = True, bm_depth = d\<rparr>]
                       else o_braces st
                   | None \<Rightarrow> o_braces st),
                o_i := i + 1\<rparr>)
      else
        (case (if colorizeKeys cfg \<and> length (o_braceStack st) > 0 \<and> fst (last (o_braceStack st))
               then obj_matchPropertyKey text i else None) of
           Some (kstart, kend) \<Rightarrow>
             st\<lparr>o_propertyKeys := o_propertyKeys st @
                  [\<lparr>pk_start = kstart, pk_end = kend,
                    pk_depth = objectFrames (o_braceStack st) - 1\<rparr>],
                o_i := kend\<rparr>
         | None \<Rightarrow> st\<lparr>o_i := i + 1\<rparr>))"

text \<open>One iteration of the \<open>while (i < text.length)\<close> loop.\<close>

definition obj_step :: "config \<Rightarrow> string \<Rightarrow> obj_state \<Rightarrow> obj_state" where
  "obj_step cfg text st =
     (let i = o_i st in
      if text ! i = CHR ''/'' \<and> i + 1 < length text \<and> text ! (i + 1) = CHR ''/''
        then st\<lparr>o_i := skipToEndOfLine text i\<rparr>
      else if text ! i = CHR ''/'' \<and> i + 1 < length text \<and> text ! (i + 1) = CHR ''*''
        then st\<lparr>o_i := skipBlockComment text i\<rparr>
      else if text ! i = DQUOTE \<or> text ! i = SQUOTE \<or> text ! i = BACKTICK
        then st\<lparr>o_i := obj_skipString text i (text ! i)\<rparr>
      else if text ! i = CHR ''/'' \<and> isRegexContext text i
        then st\<lparr>o_i := skipRegex text i\<rparr>
      else obj_braceStep cfg text st)"

subsection \<open>The loop of findObjectBracesAndKeys, and parse\<close>

text \<open>Every iteration moves the cursor forward, so the loop ends.\<close>

lemma obj_skip_ge:
  "pos \<le> obj_skipTemplate t pos" "pos \<le> obj_skipInterpolation t pos d"
proof (induction t pos and t pos d rule: obj_skipTemplate_obj_skipInterpolation.induct)
  case (1 t pos)
  show ?case using "1.IH" by (subst obj_skipTemplate.simps) auto
next
  case (2 t pos d)
  show ?case using "2.IH" by (subst obj_skipInterpolation.simps) auto
qed

lemma obj_skipRegular_ge: "pos \<le> obj_skipRegular t quote pos"
proof (induction t quote pos rule: obj_skipRegular.induct)
  case (1 t quote pos)
  show ?case
    using "1.IH"
    by (subst obj_skipRegular.simps)
       auto
qed

lemma obj_skipString_gt: "pos < obj_skipString t pos quote"
  using obj_skip_ge(1) [of "pos + 1" t] obj_skipRegular_ge [of "pos + 1" t quote]
  by (simp add: obj_skipString_def)

lemma skipRegex_loop_ge: "pos \<le> skipRegex_loop t pos"
proof (induction t pos rule: skipRegex_loop.induct)
  case (1 t pos)
  have c: "pos \<le> skipRegex_class t (pos + 1) + 1"
    using skipRegex_class_ge [of "pos + 1" t] by simp
  have w: "pos \<le> skipWhile isRegexFlag t (pos + 1)"
    using skipWhile_ge [of "pos + 1" isRegexFlag t] by simp
  show ?case
    using "1.IH" c w
    by (subst skipRegex_loop.simps)
       auto
qed

lemma skipRegex_gt: "pos < skipRegex t pos"
  using skipRegex_loop_ge [of "pos + 1" t] by (simp add: skipRegex_def)

lemma obj_stringKey_loop_ge: "pos \<le> obj_stringKey_loop t quote pos"
proof (induction t quote pos rule: obj_stringKey_loop.induct)
  case (1 t quote pos)
  show ?case
    using "1.IH"
    by (subst obj_stringKey_loop.simps)
       auto
qed

lemma obj_computedKey_loop_ge: "pos \<le> obj_computedKey_loop t pos d"
proof (induction t pos d rule: obj_computedKey_loop.induct)
  case (1 t pos d)
  show ?case
    using "1.IH"
    by (subst obj_computedKey_loop.simps)
       auto
qed

lemma obj_identifierKey_cases:
  "(\<exists>s e. obj_identifierKey t pos = Inl (s, e) \<and> pos \<le> s \<and> s < e) \<or>
   (\<exists>p. obj_identifierKey t pos = Inr p \<and> pos \<le> p)" if "pos < length t"
proof (cases "testClass isIdentStart (charAt t pos)")
  case False
  then show ?thesis by (simp add: obj_identifierKey_def)
next
  case True
  then have "isIdentChar (t ! pos)"
    using that by (auto simp: testClass_def charAt_def isIdentStart_def isIdentChar_def)
  from skipWhile_gt [OF that, of isIdentChar, OF this]
  have e: "pos < skipWhile isIdentChar t pos" .
  have "skipWhile isIdentChar t pos \<le> skipWhile isSpace t (skipWhile isIdentChar t pos)"
    by (rule skipWhile_ge)
  with e True show ?thesis by (auto simp: obj_identifierKey_def Let_def)
qed

lemma obj_stringKey_cases:
  "(\<exists>s e. obj_stringKey t pos = Inl (s, e) \<and> pos \<le> s \<and> s < e) \<or>
   (\<exists>p. obj_stringKey t pos = Inr p \<and> pos \<le> p)"
proof -
  have a: "pos + 1 \<le> obj_stringKey_loop t (t ! pos) (pos + 1)" by (rule obj_stringKey_loop_ge)
  have b: "obj_stringKey_loop t (t ! pos) (pos + 1) + 1
            \<le> skipWhile isSpace t (obj_stringKey_loop t (t ! pos) (pos + 1) + 1)"
    by (rule skipWhile_ge)
  from a b show ?thesis by (auto simp: obj_stringKey_def Let_def)
qed

lemma obj_computedKey_Some:
  "obj_computedKey t pos = Some (s, e) \<Longrightarrow> pos \<le> s \<and> s < e"
  using obj_computedKey_loop_ge [of "pos + 1" t 1]
  by (auto simp: obj_computedKey_def Let_def split: if_splits)

lemma obj_matchPropertyKey_Some:
  assumes "obj_matchPropertyKey t pos0 = Some (s, e)"
  shows "pos0 \<le> s \<and> s < e"
proof -
  define pos where "pos = skipWhile isSpace t pos0"
  have p0: "pos0 \<le> pos" unfolding pos_def by (rule skipWhile_ge)
  have pl: "pos < length t" using assms by (auto simp: obj_matchPropertyKey_def pos_def Let_def split: if_splits)
  have m: "(case obj_identifierKey t pos of Inl m \<Rightarrow> Some m
            | Inr pos1 \<Rightarrow> (case obj_stringKey t pos1 of Inl m \<Rightarrow> Some m
                            | Inr pos2 \<Rightarrow> obj_computedKey t pos2)) = Some (s, e)"
    using assms pl by (simp add: obj_matchPropertyKey_def pos_def Let_def)
  from obj_identifierKey_cases [OF pl] show ?thesis
  proof (elim disjE exE conjE)
    fix s' e' assume "obj_identifierKey t pos = Inl (s', e')" "pos \<le> s'" "s' < e'"
    with m p0 show ?thesis by simp
  next
    fix p1 assume i: "obj_identifierKey t pos = Inr p1" "pos \<le> p1"
    from obj_stringKey_cases [of t p1] show ?thesis
    proof (elim disjE exE conjE)
      fix s' e' assume "obj_stringKey t p1 = Inl (s', e')" "p1 \<le> s'" "s' < e'"
      with m i p0 show ?thesis by simp
    next
      fix p2 assume j: "obj_stringKey t p1 = Inr p2" "p1 \<le> p2"
      with m i have "obj_computedKey t p2 = Some (s, e)" by simp
      from obj_computedKey_Some [OF this] j i p0 show ?thesis by simp
    qed
  qed
qed

lemma obj_braceStep_advances: "o_i st < o_i (obj_braceStep cfg t st)"
proof (cases "t ! o_i st = CHR ''{''")
  case True
  then show ?thesis by (simp add: obj_braceStep_def Let_def)
next
  case no: False
  show ?thesis
  proof (cases "t ! o_i st = CHR ''}''")
    case True
    with no show ?thesis by (simp add: obj_braceStep_def Let_def split: prod.splits)
  next
    case nc: False
    show ?thesis
    proof (cases "colorizeKeys cfg \<and> length (o_braceStack st) > 0 \<and> fst (last (o_braceStack st))")
      case False
      with no nc show ?thesis by (auto simp: obj_braceStep_def Let_def)
    next
      case True
      show ?thesis
      proof (cases "obj_matchPropertyKey t (o_i st)")
        case None
        with no nc True show ?thesis by (simp add: obj_braceStep_def Let_def)
      next
        case (Some k)
        obtain ks ke where k: "k = (ks, ke)" by (cases k)
        from obj_matchPropertyKey_Some [OF Some [unfolded k]] have "o_i st < ke" by simp
        with Some k no nc True show ?thesis by (simp add: obj_braceStep_def Let_def)
      qed
    qed
  qed
qed

lemma obj_step_cases:
  "obj_step cfg t st = st\<lparr>o_i := skipToEndOfLine t (o_i st)\<rparr> \<or>
   (o_i st + 1 < length t \<and> obj_step cfg t st = st\<lparr>o_i := skipBlockComment t (o_i st)\<rparr>) \<or>
   obj_step cfg t st = st\<lparr>o_i := obj_skipString t (o_i st) (t ! o_i st)\<rparr> \<or>
   obj_step cfg t st = st\<lparr>o_i := skipRegex t (o_i st)\<rparr> \<or>
   obj_step cfg t st = obj_braceStep cfg t st"
  unfolding obj_step_def Let_def by (simp only: split: if_split) blast

lemma obj_step_advances:
  assumes "o_i st < length t"
  shows "o_i st < o_i (obj_step cfg t st)"
  using obj_step_cases [of cfg t st]
proof (elim disjE conjE)
  assume "obj_step cfg t st = st\<lparr>o_i := skipToEndOfLine t (o_i st)\<rparr>"
  then show ?thesis using skipToEndOfLine_gt [of "o_i st" t] by simp
next
  assume "o_i st + 1 < length t" "obj_step cfg t st = st\<lparr>o_i := skipBlockComment t (o_i st)\<rparr>"
  then show ?thesis using skipBlockComment_gt [of "o_i st" t] by simp
next
  assume "obj_step cfg t st = st\<lparr>o_i := obj_skipString t (o_i st) (t ! o_i st)\<rparr>"
  then show ?thesis using obj_skipString_gt [of "o_i st" t "t ! o_i st"] by simp
next
  assume "obj_step cfg t st = st\<lparr>o_i := skipRegex t (o_i st)\<rparr>"
  then show ?thesis using skipRegex_gt [of "o_i st" t] by simp
next
  assume "obj_step cfg t st = obj_braceStep cfg t st"
  then show ?thesis using obj_braceStep_advances [of st cfg t] by simp
qed

function obj_loop :: "config \<Rightarrow> string \<Rightarrow> obj_state \<Rightarrow> obj_state" where
  "obj_loop cfg text st =
     (if o_i st < length text then obj_loop cfg text (obj_step cfg text st) else st)"
  by pat_completeness auto
termination
proof (relation "measure (\<lambda>(cfg, text, st). length text - o_i st)", goal_cases)
  case 1
  show ?case by simp
next
  case (2 cfg t st)
  with obj_step_advances [of st t cfg] show ?case by simp
qed

declare obj_loop.simps [simp del]

definition obj_initial :: obj_state where
  "obj_initial = \<lparr>o_i = 0, o_braces = [], o_propertyKeys = [], o_braceStack = []\<rparr>"

definition findObjectBracesAndKeys :: "config \<Rightarrow> string \<Rightarrow> BraceMatch list \<times> PropertyKeyMatch list" where
  "findObjectBracesAndKeys cfg text =
     (let st = obj_loop cfg text obj_initial in (o_braces st, o_propertyKeys st))"

definition braceRange :: "BraceMatch \<Rightarrow> ColoredRange" where
  "braceRange brace =
     createColoredRange (int (bm_position brace)) (int (bm_position brace) + 1) (bm_depth brace)"

definition keyRange :: "PropertyKeyMatch \<Rightarrow> ColoredRange" where
  "keyRange key = createColoredRange (int (pk_start key)) (int (pk_end key)) (pk_depth key)"

definition obj_parse :: "config \<Rightarrow> string \<Rightarrow> ColoredRange list" where
  "obj_parse cfg text =
     (if \<not> objectBracesEnabled cfg then []
      else
        (case findObjectBracesAndKeys cfg text of
           (braces, propertyKeys) \<Rightarrow>
             map braceRange (filter bm_isObject braces) @
             (if colorizeKeys cfg then map keyRange propertyKeys else [])))"

section \<open>Well-formed markup\<close>

text \<open>
  The inputs of the balanced markup depth law, following the specification's words: a
  well-formed sequence of nested non-void tags. An element has the name of its opening
  tag, the name of its closing tag (equal up to case) and its children; \<open>render\<close> writes
  it as text. \<open>tagsOf\<close> lists the tags of the rendered text with their offsets, and
  \<open>expectedSpans\<close> the spans the law predicts: the three sub-spans of the opening tag
  and of the closing tag at depth \<open>d\<close>, the children one level deeper.
\<close>

datatype element = Element string string "element list"

fun render :: "element \<Rightarrow> string" and renderAll :: "element list \<Rightarrow> string" where
  "render (Element n c kids) = ''<'' @ n @ ''>'' @ renderAll kids @ ''</'' @ c @ ''>''"
| "renderAll [] = []"
| "renderAll (e # es) = render e @ renderAll es"

definition validName :: "string \<Rightarrow> bool" where
  "validName n = (n \<noteq> [] \<and> isLetter (hd n) \<and> list_all isTagNameChar n)"

fun wellFormed :: "element \<Rightarrow> bool" and wellFormedAll :: "element list \<Rightarrow> bool" where
  "wellFormed (Element n c kids) =
     (validName n \<and> validName c \<and> toLowerCase n = toLowerCase c \<and>
      toLowerCase n \<notin> set VOID_ELEMENTS \<and> wellFormedAll kids)"
| "wellFormedAll [] = True"
| "wellFormedAll (e # es) = (wellFormed e \<and> wellFormedAll es)"

fun tagsOf :: "nat \<Rightarrow> element \<Rightarrow> TagMatch list" and tagsOfAll :: "nat \<Rightarrow> element list \<Rightarrow> TagMatch list" where
  "tagsOf off (Element n c kids) =
     mkTag OpenTag n off (off + length n + 2) (off + 1) (off + 1 + length n) #
     tagsOfAll (off + length n + 2) kids @
     [let e = off + length n + 2 + length (renderAll kids)
      in mkTag CloseTag c e (e + length c + 3) (e + 2) (e + 2 + length c)]"
| "tagsOfAll off [] = []"
| "tagsOfAll off (e # es) = tagsOf off e @ tagsOfAll (off + length (render e)) es"

fun expectedSpans :: "nat \<Rightarrow> int \<Rightarrow> element \<Rightarrow> ColoredRange list"
  and expectedSpansAll :: "nat \<Rightarrow> int \<Rightarrow> element list \<Rightarrow> ColoredRange list" where
  "expectedSpans off d (Element n c kids) =
     [createColoredRange (int off) (int off + 1) d,
      createColoredRange (int off + 1) (int off + 1 + int (length n)) d,
      createColoredRange (int off + 1 + int (length n)) (int off + 2 + int (length n)) d] @
     expectedSpansAll (off + length n + 2) (d + 1) kids @
     (let e = int (off + length n + 2 + length (renderAll kids))
      in [createColoredRange e (e + 2) d,
          createColoredRange (e + 2) (e + 2 + int (length c)) d,
          createColoredRange (e + 2 + int (length c)) (e + 3 + int (length c)) d])"
| "expectedSpansAll off d [] = []"
| "expectedSpansAll off d (e # es) =
     expectedSpans off d e @ expectedSpansAll (off + length (render e)) d es"

text \<open>
  The result of a top-down search of the stack below index \<open>i\<close>: \<open>-1\<close> when no
  frame matches, the greatest matching index otherwise.
\<close>

definition topmostMatch :: "string list \<Rightarrow> string \<Rightarrow> int \<Rightarrow> int \<Rightarrow> bool" where
  "topmostMatch stack l i r =
     ((r = -1 \<and> (\<forall>j. 0 \<le> j \<and> j \<le> i \<longrightarrow> toLowerCase (stack ! nat j) \<noteq> l)) \<or>
      (0 \<le> r \<and> r \<le> i \<and> toLowerCase (stack ! nat r) = l \<and>
       (\<forall>j. r < j \<and> j \<le> i \<longrightarrow> toLowerCase (stack ! nat j) \<noteq> l)))"

section \<open>Loop invariants\<close>

text \<open>
  The invariant of the loop of \<open>tokenize\<close>: the depth counter is the sum of the lengths
  of the tag stack and of the object brace stack, the expression state is entered only
  with a non-empty tag stack, and no token emitted and no depth recorded on the object
  brace stack is negative. The invariant of the loop of \<open>findObjectBracesAndKeys\<close>: no
  depth recorded in a brace, in a key or on the brace stack is negative.
\<close>

definition jsx_inv :: "jsx_state \<Rightarrow> bool" where
  "jsx_inv st =
     (js_depth st = int (length (js_tagStack st)) + int (length (js_objectBraceStack st)) \<and>
      (js_inJsxExpression st \<longrightarrow> js_tagStack st \<noteq> []) \<and>
      list_all (\<lambda>token. 0 \<le> tok_depth token) (js_tokens st) \<and>
      list_all (\<lambda>d. 0 \<le> d) (js_objectBraceStack st))"

definition obj_inv :: "obj_state \<Rightarrow> bool" where
  "obj_inv st =
     (list_all (\<lambda>brace. 0 \<le> bm_depth brace) (o_braces st) \<and>
      list_all (\<lambda>key. 0 \<le> pk_depth key) (o_propertyKeys st) \<and>
      list_all (\<lambda>frame. 0 \<le> snd frame) (o_braceStack st))"

section \<open>Strings and comments as text\<close>

text \<open>
  The literals and comments of the opacity property, following the specification's
  words, as text shapes. A quoted string is made of plain characters (not the quote, a
  backslash or a newline) and escapes; a template literal of plain characters (not a
  backquote, a backslash or a dollar sign), escapes and \<open>${...}\<close> segments whose braces
  balance and whose backquotes delimit nested template literals; a line comment ends at
  its newline; a block comment holds no \<open>*/\<close> before its end.
\<close>

datatype str_item = SChar char | SEscape char

fun renderStrItem :: "str_item \<Rightarrow> string" where
  "renderStrItem (SChar c) = [c]"
| "renderStrItem (SEscape c) = [BACKSLASH, c]"

definition renderStr :: "str_item list \<Rightarrow> string" where
  "renderStr items = concat (map renderStrItem items)"

fun wfStrItem :: "char \<Rightarrow> str_item \<Rightarrow> bool" where
  "wfStrItem q (SChar c) = (c \<noteq> q \<and> c \<noteq> BACKSLASH \<and> c \<noteq> NEWLINE)"
| "wfStrItem q (SEscape c) = True"

text \<open>
  A template literal is a list of plain characters, escapes and \<open>${...}\<close> segments; a
  segment is a list of characters and of template literals nested in it.
\<close>

datatype tpl_item = TChar char | TEscape char | TInterp "interp_item list"
  and interp_item = IChar char | INested "tpl_item list"

fun renderTpl :: "tpl_item list \<Rightarrow> string"
  and renderInterp :: "interp_item list \<Rightarrow> string" where
  "renderTpl [] = []"
| "renderTpl (TChar c # r) = c # renderTpl r"
| "renderTpl (TEscape c # r) = BACKSLASH # c # renderTpl r"
| "renderTpl (TInterp its # r) = CHR ''$'' # CHR ''{'' # renderInterp its @ CHR ''}'' # renderTpl r"
| "renderInterp [] = []"
| "renderInterp (IChar c # r) = c # renderInterp r"
| "renderInterp (INested items # r) = BACKTICK # renderTpl items @ BACKTICK # renderInterp r"

text \<open>
  The content of a \<open>${...}\<close> segment read at brace depth \<open>d\<close>: outside its nested
  template literals it holds no backquote, its braces never close the segment, and they
  leave the depth at 1 for the closing brace.
\<close>

fun wfTpl :: "tpl_item list \<Rightarrow> bool"
  and wfInterp :: "int \<Rightarrow> interp_item list \<Rightarrow> bool" where
  "wfTpl [] = True"
| "wfTpl (TChar c # r) = (c \<noteq> BACKTICK \<and> c \<noteq> BACKSLASH \<and> c \<noteq> CHR ''$'' \<and> wfTpl r)"
| "wfTpl (TEscape c # r) = wfTpl r"
| "wfTpl (TInterp its # r) = (wfInterp 1 its \<and> wfTpl r)"
| "wfInterp d [] = (d = 1)"
| "wfInterp d (IChar c # r) =
     (c \<noteq> BACKTICK \<and>
      (if c = CHR ''{'' then wfInterp (d + 1) r
       else if c = CHR ''}'' then d > 1 \<and> wfInterp (d - 1) r
       else wfInterp d r))"
| "wfInterp d (INested items # r) = (wfTpl items \<and> wfInterp d r)"

text \<open>A template literal none of whose segments holds a nested template literal.\<close>

fun plainInterp :: "interp_item \<Rightarrow> bool" where
  "plainInterp (IChar c) = True"
| "plainInterp (INested items) = False"

fun plainTplItem :: "tpl_item \<Rightarrow> bool" where
  "plainTplItem (TInterp its) = list_all plainInterp its"
| "plainTplItem item = True"

fun noCommentEnd :: "string \<Rightarrow> bool" where
  "noCommentEnd (a # b # cs) = (\<not> (a = CHR ''*'' \<and> b = CHR ''/'') \<and> noCommentEnd (b # cs))"
| "noCommentEnd cs = True"

datatype opaque =
  Quoted char "str_item list" | Template "tpl_item list" | LineComment string | BlockComment string

fun renderOpaque :: "opaque \<Rightarrow> string" where
  "renderOpaque (Quoted q items) = q # renderStr items @ [q]"
| "renderOpaque (Template items) = BACKTICK # renderTpl items @ [BACKTICK]"
| "renderOpaque (LineComment body) = CHR ''/'' # CHR ''/'' # body @ [NEWLINE]"
| "renderOpaque (BlockComment body) = CHR ''/'' # CHR ''*'' # body @ [CHR ''*'', CHR ''/'']"

fun wfOpaque :: "opaque \<Rightarrow> bool" where
  "wfOpaque (Quoted q items) = ((q = DQUOTE \<or> q = SQUOTE) \<and> list_all (wfStrItem q) items)"
| "wfOpaque (Template items) = wfTpl items"
| "wfOpaque (LineComment body) = (NEWLINE \<notin> set body)"
| "wfOpaque (BlockComment body) = noCommentEnd body"

fun unnested :: "opaque \<Rightarrow> bool" where
  "unnested (Template items) = list_all plainTplItem items"
| "unnested seg = True"

text \<open>
  The attributes of a tag, between its name and its \<open>>\<close>: plain characters (no quote,
  \<open><\<close> or \<open>>\<close>) and quoted values, which hold anything but their quote and do not
  end in a backslash.
\<close>

datatype attr_item = AChar char | AQuoted char string

fun renderAttrItem :: "attr_item \<Rightarrow> string" where
  "renderAttrItem (AChar c) = [c]"
| "renderAttrItem (AQuoted q body) = q # body @ [q]"

definition renderAttrs :: "attr_item list \<Rightarrow> string" where
  "renderAttrs items = concat (map renderAttrItem items)"

fun wfAttrItem :: "attr_item \<Rightarrow> bool" where
  "wfAttrItem (AChar c) = (c \<noteq> DQUOTE \<and> c \<noteq> SQUOTE \<and> c \<noteq> CHR ''<'' \<and> c \<noteq> CHR ''>'')"
| "wfAttrItem (AQuoted q body) =
     ((q = DQUOTE \<or> q = SQUOTE) \<and> q \<notin> set body \<and> (body = [] \<or> last body \<noteq> BACKSLASH))"

section \<open>Properties of the HtmlParser\<close>

lemma createTagRanges_depth:
  "r \<in> set (createTagRanges tag d) \<Longrightarrow> depth r = d"
  by (auto simp: createTagRanges_def createColoredRange_def split: if_splits)

lemma topmostMatch_step:
  assumes "0 \<le> i" "toLowerCase (stack ! nat i) \<noteq> l" "topmostMatch stack l (i - 1) r"
  shows "topmostMatch stack l i r"
proof -
  have step: "\<And>j. j \<le> i \<Longrightarrow> j \<le> i - 1 \<or> j = i" by arith
  from assms(3) show ?thesis
    unfolding topmostMatch_def
  proof (elim disjE conjE)
    assume a: "r = -1" "\<forall>j. 0 \<le> j \<and> j \<le> i - 1 \<longrightarrow> toLowerCase (stack ! nat j) \<noteq> l"
    have "\<forall>j. 0 \<le> j \<and> j \<le> i \<longrightarrow> toLowerCase (stack ! nat j) \<noteq> l"
      using a(2) assms(2) step by blast
    with a(1) show "(r = -1 \<and> (\<forall>j. 0 \<le> j \<and> j \<le> i \<longrightarrow> toLowerCase (stack ! nat j) \<noteq> l)) \<or>
      (0 \<le> r \<and> r \<le> i \<and> toLowerCase (stack ! nat r) = l \<and>
       (\<forall>j. r < j \<and> j \<le> i \<longrightarrow> toLowerCase (stack ! nat j) \<noteq> l))" by blast
  next
    assume a: "0 \<le> r" "r \<le> i - 1" "toLowerCase (stack ! nat r) = l"
       "\<forall>j. r < j \<and> j \<le> i - 1 \<longrightarrow> toLowerCase (stack ! nat j) \<noteq> l"
    have "\<forall>j. r < j \<and> j \<le> i \<longrightarrow> toLowerCase (stack ! nat j) \<noteq> l"
      using a(4) assms(2) step by blast
    moreover have "r \<le> i" using a(2) by simp
    ultimately show "(r = -1 \<and> (\<forall>j. 0 \<le> j \<and> j \<le> i \<longrightarrow> toLowerCase (stack ! nat j) \<noteq> l)) \<or>
      (0 \<le> r \<and> r \<le> i \<and> toLowerCase (stack ! nat r) = l \<and>
       (\<forall>j. r < j \<and> j \<le> i \<longrightarrow> toLowerCase (stack ! nat j) \<noteq> l))" using a(1,3) by blast
  qed
qed

lemma findMatchingOpenTag_loop_spec:
  "-1 \<le> i \<Longrightarrow> topmostMatch stack l i (findMatchingOpenTag_loop stack l i)"
proof (induction stack l i rule: findMatchingOpenTag_loop.induct)
  case (1 stack l i)
  show ?case
  proof (cases "i \<ge> 0")
    case False
    then have "findMatchingOpenTag_loop stack l i = -1"
      by (simp add: findMatchingOpenTag_loop.simps [of stack l i])
    moreover have "\<forall>j. 0 \<le> j \<and> j \<le> i \<longrightarrow> toLowerCase (stack ! nat j) \<noteq> l"
      using False by auto
    ultimately show ?thesis unfolding topmostMatch_def by blast
  next
    case True
    show ?thesis
    proof (cases "toLowerCase (stack ! nat i) = l")
      case eq: True
      then have "findMatchingOpenTag_loop stack l i = i"
        using True by (simp add: findMatchingOpenTag_loop.simps [of stack l i])
      moreover have "\<forall>j. i < j \<and> j \<le> i \<longrightarrow> toLowerCase (stack ! nat j) \<noteq> l" by auto
      ultimately show ?thesis unfolding topmostMatch_def using True eq by simp
    next
      case False
      have eq: "findMatchingOpenTag_loop stack l i = findMatchingOpenTag_loop stack l (i - 1)"
        using True False by (simp add: findMatchingOpenTag_loop.simps [of stack l i])
      have "topmostMatch stack l (i - 1) (findMatchingOpenTag_loop stack l (i - 1))"
        using "1.IH" [OF True False] True by simp
      then show ?thesis
        unfolding eq using topmostMatch_step [OF True False] by blast
    qed
  qed
qed

lemma tagStartRegex_exec_hit:
  "p < length t \<Longrightarrow> matchTagStartAt t p = Some (c, n) \<Longrightarrow> tagStartRegex_exec t p = Some (p, c, n)"
  by (simp add: tagStartRegex_exec.simps [of t p])

lemma findAllTags_loop_skip:
  assumes "charAt t p \<noteq> Some CHR ''<''"
  shows "findAllTags_loop t p = findAllTags_loop t (p + 1)"
proof -
  have m: "matchTagStartAt t p = None" using assms by (simp add: matchTagStartAt_def)
  have "tagStartRegex_exec t p = tagStartRegex_exec t (p + 1)"
  proof (cases "p < length t")
    case True
    with m show ?thesis by (simp add: tagStartRegex_exec.simps [of t p])
  next
    case False
    then show ?thesis
      by (simp add: tagStartRegex_exec.simps [of t p] tagStartRegex_exec.simps [of t "Suc p"])
  qed
  then show ?thesis
    by (simp add: findAllTags_loop.simps [of t p] findAllTags_loop.simps [of t "Suc p"])
qed

lemma not_nameChar_gt [simp]: "\<not> isTagNameChar CHR ''>''"
  by (simp add: isTagNameChar_def isLetter_def isDigit_def)

lemma not_nameChar_slash [simp]: "\<not> isTagNameChar CHR ''/''"
  by (simp add: isTagNameChar_def isLetter_def isDigit_def)

lemma not_letter_slash [simp]: "\<not> isLetter CHR ''/''"
  by (simp add: isLetter_def)

lemma validName_takeWhile:
  "validName n \<Longrightarrow> takeWhile isTagNameChar (n @ CHR ''>'' # rest) = n"
  by (simp add: validName_def list_all_iff)

lemma validName_last: "validName n \<Longrightarrow> last n \<noteq> CHR ''/''"
  by (metis validName_def list_all_iff last_in_set not_nameChar_slash)

lemma validName_hd: "validName n \<Longrightarrow> hd n \<noteq> CHR ''/'' \<and> isLetter (hd n) \<and> n \<noteq> []"
  by (metis validName_def not_letter_slash)

lemma matchTagStartAt_open:
  assumes "validName n"
  shows "matchTagStartAt (pre @ CHR ''<'' # n @ CHR ''>'' # rest) (length pre) = Some (False, n)"
proof -
  obtain a n' where n: "n = a # n'" using assms by (cases n) (auto simp: validName_def)
  have a: "isLetter a" "a \<noteq> CHR ''/''" using validName_hd [OF assms] n by auto
  have tw: "takeWhile isTagNameChar (a # n' @ CHR ''>'' # rest) = a # n'"
    using validName_takeWhile [OF assms, of rest] n by simp
  show ?thesis
    unfolding n using a tw
    by (simp add: matchTagStartAt_def charAt_def nth_append Let_def)
qed

lemma matchTagStartAt_close:
  assumes "validName n"
  shows "matchTagStartAt (pre @ CHR ''<'' # CHR ''/'' # n @ CHR ''>'' # rest) (length pre) = Some (True, n)"
proof -
  obtain a n' where n: "n = a # n'" using assms by (cases n) (auto simp: validName_def)
  have a: "isLetter a" "a \<noteq> CHR ''/''" using validName_hd [OF assms] n by auto
  have tw: "takeWhile isTagNameChar (a # n' @ CHR ''>'' # rest) = a # n'"
    using validName_takeWhile [OF assms, of rest] n by simp
  show ?thesis
    unfolding n using a tw
    by (simp add: matchTagStartAt_def charAt_def nth_append Let_def)
qed

lemma findTagEnd_at_gt:
  assumes "i < length t" "t ! i = CHR ''>''"
  shows "findTagEnd t i isClosing = Some (i + 1, \<not> isClosing \<and> charAtI t (int i - 1) = Some CHR ''/'')"
  using assms by (simp add: findTagEnd_def findTagEnd_loop.simps [of t isClosing i])

lemma candidateTag_open:
  assumes "validName n"
  shows "candidateTag (pre @ CHR ''<'' # n @ CHR ''>'' # rest) (length pre) False n =
           Some (mkTag OpenTag n (length pre) (length pre + length n + 2) (length pre + 1)
                   (length pre + 1 + length n))"
proof -
  let ?t = "pre @ CHR ''<'' # n @ CHR ''>'' # rest"
  have i: "length pre + 1 + length n < length ?t" by simp
  have c: "?t ! (length pre + 1 + length n) = CHR ''>''"
    by (simp add: nth_append)
  have n: "n \<noteq> []" using assms by (simp add: validName_def)
  have "?t ! (length pre + length n) = last n"
    using n by (simp add: nth_append last_conv_nth nth_Cons')
  then have p: "charAtI ?t (int (length pre + 1 + length n) - 1) \<noteq> Some CHR ''/''"
    using validName_last [OF assms] by (simp add: charAtI_def nat_add_distrib)
  show ?thesis
    using findTagEnd_at_gt [OF i c, of False] p
    by (simp add: candidateTag_def Let_def add.commute add.left_commute)
qed

lemma candidateTag_close:
  assumes "validName n"
  shows "candidateTag (pre @ CHR ''<'' # CHR ''/'' # n @ CHR ''>'' # rest) (length pre) True n =
           Some (mkTag CloseTag n (length pre) (length pre + length n + 3) (length pre + 2)
                   (length pre + 2 + length n))"
proof -
  let ?t = "pre @ CHR ''<'' # CHR ''/'' # n @ CHR ''>'' # rest"
  have i: "length pre + 2 + length n < length ?t" by simp
  have c: "?t ! (length pre + 2 + length n) = CHR ''>''"
    by (simp add: nth_append)
  show ?thesis
    using findTagEnd_at_gt [OF i c, of True]
    by (simp add: candidateTag_def Let_def add.commute add.left_commute numeral_3_eq_3)
qed

lemma parse_step_ranges:
  "parse_step (rs, st) tag =
     (rs @ fst (parse_step ([], st) tag), snd (parse_step ([], st) tag))"
  by (cases "tagType tag") (simp_all add: parse_step_def Let_def)

lemma foldl_parse_step_ranges:
  "foldl parse_step (rs, st) tags =
     (rs @ fst (foldl parse_step ([], st) tags), snd (foldl parse_step ([], st) tags))"
proof (induction tags arbitrary: rs st rule: rev_induct)
  case Nil
  show ?case by simp
next
  case (snoc tag tags)
  obtain rs' st' where r: "foldl parse_step ([], st) tags = (rs', st')"
    by (cases "foldl parse_step ([], st) tags")
  have "foldl parse_step (rs, st) tags = (rs @ rs', st')" using snoc [of rs st] r by simp
  then show ?case using r parse_step_ranges [of "rs @ rs'" st' tag] parse_step_ranges [of rs' st' tag]
    by simp
qed

lemma findAllTags_loop_hit:
  "p < length t \<Longrightarrow> matchTagStartAt t p = Some (c, n) \<Longrightarrow> candidateTag t p c n = Some tag \<Longrightarrow>
     findAllTags_loop t p = tag # findAllTags_loop t (candidateNameEnd p c n)"
  by (simp add: findAllTags_loop.simps [of t p] tagStartRegex_exec_hit)

lemma findAllTags_loop_rendered:
  "wellFormed e \<Longrightarrow>
     findAllTags_loop (pre @ render e @ post) (length pre) =
       tagsOf (length pre) e @ findAllTags_loop (pre @ render e @ post) (length pre + length (render e))"
  "wellFormedAll es \<Longrightarrow>
     findAllTags_loop (pre @ renderAll es @ post) (length pre) =
       tagsOfAll (length pre) es @
       findAllTags_loop (pre @ renderAll es @ post) (length pre + length (renderAll es))"
proof (induction e and es arbitrary: pre post and pre post rule: render_renderAll.induct)
  case (1 n c kids)
  define t where "t = pre @ render (Element n c kids) @ post"
  have vn: "validName n" and vc: "validName c" and wk: "wellFormedAll kids" using "1.prems" by auto
  define pre' where "pre' = pre @ CHR ''<'' # n @ ''>''"
  define post' where "post' = CHR ''<'' # CHR ''/'' # c @ CHR ''>'' # post"
  have lp: "length pre' = length pre + length n + 2" by (simp add: pre'_def)
  have t1: "t = pre @ CHR ''<'' # n @ CHR ''>'' # (renderAll kids @ post')"
    by (simp add: t_def post'_def)
  have t2: "t = pre' @ renderAll kids @ post'" by (simp add: t_def pre'_def post'_def)
  have t3: "t = (pre' @ renderAll kids) @ CHR ''<'' # CHR ''/'' # c @ CHR ''>'' # post"
    by (simp add: t_def pre'_def)
  have s1: "findAllTags_loop t (length pre) =
       mkTag OpenTag n (length pre) (length pre + length n + 2) (length pre + 1) (length pre + 1 + length n)
       # findAllTags_loop t (length pre + 1 + length n)"
  proof -
    have "findAllTags_loop t (length pre) =
       mkTag OpenTag n (length pre) (length pre + length n + 2) (length pre + 1) (length pre + 1 + length n)
       # findAllTags_loop t (candidateNameEnd (length pre) False n)"
      unfolding t1
      by (rule findAllTags_loop_hit) (simp_all add: matchTagStartAt_open [OF vn] candidateTag_open [OF vn])
    then show ?thesis by (simp add: candidateNameEnd_def add.commute add.left_commute)
  qed
  have s2: "findAllTags_loop t (length pre + 1 + length n) = findAllTags_loop t (length pre')"
  proof -
    have "charAt t (length pre + 1 + length n) \<noteq> Some CHR ''<''"
      unfolding t1 by (simp add: charAt_def nth_append)
    from findAllTags_loop_skip [OF this] show ?thesis by (simp add: lp add.commute add.left_commute)
  qed
  have s3: "findAllTags_loop t (length pre') =
      tagsOfAll (length pre') kids @ findAllTags_loop t (length pre' + length (renderAll kids))"
    using "1.IH" [OF wk, of pre' post'] unfolding t2 [symmetric] .
  define e where "e = length pre' + length (renderAll kids)"
  have e: "e = length (pre' @ renderAll kids)" by (simp add: e_def)
  have s4: "findAllTags_loop t e =
       mkTag CloseTag c e (e + length c + 3) (e + 2) (e + 2 + length c)
       # findAllTags_loop t (e + 2 + length c)"
  proof -
    have "findAllTags_loop t e =
       mkTag CloseTag c e (e + length c + 3) (e + 2) (e + 2 + length c)
       # findAllTags_loop t (candidateNameEnd e True c)"
      unfolding t3 e
      using matchTagStartAt_close [OF vc, of "pre' @ renderAll kids" post]
        candidateTag_close [OF vc, of "pre' @ renderAll kids" post]
      by (intro findAllTags_loop_hit) simp_all
    then show ?thesis by (simp add: candidateNameEnd_def add.commute add.left_commute)
  qed
  have s5: "findAllTags_loop t (e + 2 + length c) = findAllTags_loop t (length pre + length (render (Element n c kids)))"
  proof -
    have "charAt t (e + 2 + length c) \<noteq> Some CHR ''<''"
      unfolding t3 e by (simp add: charAt_def nth_append)
    from findAllTags_loop_skip [OF this] show ?thesis
      by (simp add: e_def lp add.commute add.left_commute)
  qed
  show ?case
    unfolding t_def [symmetric] s1 s2 s3 e_def [symmetric] s4 s5
    by (simp add: Let_def e_def lp add.commute add.left_commute)
next
  case 2
  show ?case by simp
next
  case (3 e es)
  have we: "wellFormed e" and wes: "wellFormedAll es" using "3.prems" by auto
  define t where "t = pre @ renderAll (e # es) @ post"
  have t1: "t = pre @ render e @ (renderAll es @ post)" by (simp add: t_def)
  have t2: "t = (pre @ render e) @ renderAll es @ post" by (simp add: t_def)
  have a: "findAllTags_loop t (length pre) = tagsOf (length pre) e @ findAllTags_loop t (length pre + length (render e))"
    using "3.IH"(1) [OF we, of pre "renderAll es @ post"] unfolding t1 [symmetric] .
  have b: "findAllTags_loop t (length (pre @ render e)) =
      tagsOfAll (length (pre @ render e)) es @ findAllTags_loop t (length (pre @ render e) + length (renderAll es))"
    using "3.IH"(2) [OF wes, of "pre @ render e" post] unfolding t2 [symmetric] .
  show ?case unfolding t_def [symmetric] using a b by (simp add: add.assoc)
qed

lemma parse_step_open:
  "toLowerCase n \<notin> set VOID_ELEMENTS \<Longrightarrow>
   parse_step (rs, st) (mkTag OpenTag n bs be ns ne) =
     (rs @ createTagRanges (mkTag OpenTag n bs be ns ne) (int (length st)), st @ [n])"
  by (simp add: parse_step_def mkTag_def)

lemma findMatchingOpenTag_top:
  "toLowerCase n = toLowerCase c \<Longrightarrow> findMatchingOpenTag (st @ [n]) c = int (length st)"
  by (simp add: findMatchingOpenTag_def findMatchingOpenTag_loop.simps [of "st @ [n]" _ "int (length st)"])

lemma parse_step_close_top:
  "toLowerCase n = toLowerCase c \<Longrightarrow>
   parse_step (rs, st @ [n]) (mkTag CloseTag c bs be ns ne) =
     (rs @ createTagRanges (mkTag CloseTag c bs be ns ne) (int (length st)), st)"
  by (simp add: parse_step_def findMatchingOpenTag_top Let_def mkTag_def)

lemma replay_rendered:
  "wellFormed e \<Longrightarrow>
     foldl parse_step (rs, st) (tagsOf off e) = (rs @ expectedSpans off (int (length st)) e, st)"
  "wellFormedAll es \<Longrightarrow>
     foldl parse_step (rs, st) (tagsOfAll off es) = (rs @ expectedSpansAll off (int (length st)) es, st)"
proof (induction off e and off es arbitrary: rs st and rs st rule: tagsOf_tagsOfAll.induct)
  case (1 off n c kids)
  have nv: "toLowerCase n \<notin> set VOID_ELEMENTS" and eq: "toLowerCase n = toLowerCase c"
    and wk: "wellFormedAll kids" using "1.prems" by auto
  define ot where "ot = mkTag OpenTag n off (off + length n + 2) (off + 1) (off + 1 + length n)"
  define e where "e = off + length n + 2 + length (renderAll kids)"
  define ct where "ct = mkTag CloseTag c e (e + length c + 3) (e + 2) (e + 2 + length c)"
  define R1 where "R1 = createTagRanges ot (int (length st))"
  define R2 where "R2 = expectedSpansAll (off + length n + 2) (int (length st) + 1) kids"
  define R3 where "R3 = createTagRanges ct (int (length st))"
  have tags: "tagsOf off (Element n c kids) = ot # tagsOfAll (off + length n + 2) kids @ [ct]"
    by (simp add: ot_def ct_def e_def Let_def)
  have s1: "parse_step (rs, st) ot = (rs @ R1, st @ [n])"
    unfolding ot_def R1_def by (rule parse_step_open [OF nv])
  have s2: "foldl parse_step (rs @ R1, st @ [n]) (tagsOfAll (off + length n + 2) kids) =
              ((rs @ R1) @ R2, st @ [n])"
    using "1.IH" [OF wk, of "rs @ R1" "st @ [n]"] by (simp add: R2_def add.commute)
  have s3: "parse_step ((rs @ R1) @ R2, st @ [n]) ct = (((rs @ R1) @ R2) @ R3, st)"
    unfolding ct_def R3_def by (rule parse_step_close_top [OF eq])
  have ex: "expectedSpans off (int (length st)) (Element n c kids) = R1 @ R2 @ R3"
    by (simp add: R1_def R2_def R3_def ot_def ct_def e_def createTagRanges_def mkTag_def Let_def
          add.commute add.left_commute)
  show ?case unfolding tags ex foldl_Cons foldl_append s1 s2 foldl_Nil s3 by simp
next
  case (2 off)
  show ?case by simp
next
  case (3 off e es)
  then show ?case by simp
qed

lemma findAllTags_rendered:
  assumes "wellFormedAll es"
  shows "findAllTags (renderAll es) = tagsOfAll 0 es"
proof -
  have "findAllTags_loop (renderAll es) (length (renderAll es)) = []"
    by (simp add: findAllTags_loop.simps [of _ "length (renderAll es)"]
                  tagStartRegex_exec.simps [of _ "length (renderAll es)"])
  with findAllTags_loop_rendered(2) [OF assms, of "[]" "[]"]
  show ?thesis by (simp add: findAllTags_def)
qed

lemma parse_rendered:
  assumes "wellFormedAll es"
  shows "parse (renderAll es) = expectedSpansAll 0 0 es"
  by (simp add: parse_def parse_tags_def findAllTags_rendered [OF assms] replay_rendered(2) [OF assms])

lemma scenario1_wf: "wellFormedAll [Element ''div'' ''div'' [Element ''span'' ''span'' []]]"
  by code_simp

lemma scenario1:
  "parse ''<div><span></span></div>'' =
     [createColoredRange 0 1 0, createColoredRange 1 4 0, createColoredRange 4 5 0,
      createColoredRange 5 6 1, createColoredRange 6 10 1, createColoredRange 10 11 1,
      createColoredRange 11 13 1, createColoredRange 13 17 1, createColoredRange 17 18 1,
      createColoredRange 18 20 0, createColoredRange 20 23 0, createColoredRange 23 24 0]"
  using parse_rendered [OF scenario1_wf] by simp

lemma findMatchingOpenTag_spec:
  "topmostMatch stack (toLowerCase name) (int (length stack) - 1) (findMatchingOpenTag stack name)"
  unfolding findMatchingOpenTag_def by (rule findMatchingOpenTag_loop_spec) simp

lemma parse_step_close_found:
  assumes "tagType tag = CloseTag"
    and "\<exists>i<length stack. toLowerCase (stack ! i) = toLowerCase (tagName tag)"
  shows "\<exists>i<length stack. toLowerCase (stack ! i) = toLowerCase (tagName tag) \<and>
           (\<forall>j. i < j \<and> j < length stack \<longrightarrow> toLowerCase (stack ! j) \<noteq> toLowerCase (tagName tag)) \<and>
           parse_step (ranges, stack) tag =
             (ranges @ createTagRanges tag (int (length (take i stack))), take i stack)"
proof -
  define r where "r = findMatchingOpenTag stack (tagName tag)"
  have tm: "topmostMatch stack (toLowerCase (tagName tag)) (int (length stack) - 1) r"
    unfolding r_def by (rule findMatchingOpenTag_spec)
  obtain i0 where i0: "i0 < length stack" "toLowerCase (stack ! i0) = toLowerCase (tagName tag)"
    using assms(2) by blast
  have nf: "\<not> (r = -1 \<and> (\<forall>j. 0 \<le> j \<and> j \<le> int (length stack) - 1 \<longrightarrow>
              toLowerCase (stack ! nat j) \<noteq> toLowerCase (tagName tag)))"
  proof
    assume a: "r = -1 \<and> (\<forall>j. 0 \<le> j \<and> j \<le> int (length stack) - 1 \<longrightarrow>
              toLowerCase (stack ! nat j) \<noteq> toLowerCase (tagName tag))"
    then have "toLowerCase (stack ! nat (int i0)) \<noteq> toLowerCase (tagName tag)"
      using i0(1) by (intro a [THEN conjunct2, rule_format]) simp
    with i0(2) show False by simp
  qed
  with tm have f: "0 \<le> r" "r \<le> int (length stack) - 1"
    "toLowerCase (stack ! nat r) = toLowerCase (tagName tag)"
    "\<forall>j. r < j \<and> j \<le> int (length stack) - 1 \<longrightarrow> toLowerCase (stack ! nat j) \<noteq> toLowerCase (tagName tag)"
    unfolding topmostMatch_def by blast+
  have lt: "nat r < length stack" using f(1,2) by linarith
  have top: "\<forall>j. nat r < j \<and> j < length stack \<longrightarrow> toLowerCase (stack ! j) \<noteq> toLowerCase (tagName tag)"
  proof (intro allI impI)
    fix j assume "nat r < j \<and> j < length stack"
    then have "r < int j \<and> int j \<le> int (length stack) - 1" using f(1) by linarith
    from f(4) [rule_format, OF this] show "toLowerCase (stack ! j) \<noteq> toLowerCase (tagName tag)" by simp
  qed
  have "r \<noteq> -1" using f(1) by simp
  then have "parse_step (ranges, stack) tag =
      (ranges @ createTagRanges tag (int (length (take (nat r) stack))), take (nat r) stack)"
    using assms(1) by (simp add: parse_step_def Let_def r_def [symmetric])
  with lt f(3) top show ?thesis by blast
qed

lemma parse_step_close_not_found:
  assumes "tagType tag = CloseTag"
    and "\<forall>i<length stack. toLowerCase (stack ! i) \<noteq> toLowerCase (tagName tag)"
  shows "parse_step (ranges, stack) tag = (ranges @ createTagRanges tag (int (length stack)), stack)"
proof -
  define r where "r = findMatchingOpenTag stack (tagName tag)"
  have tm: "topmostMatch stack (toLowerCase (tagName tag)) (int (length stack) - 1) r"
    unfolding r_def by (rule findMatchingOpenTag_spec)
  have "\<not> (0 \<le> r \<and> r \<le> int (length stack) - 1 \<and> toLowerCase (stack ! nat r) = toLowerCase (tagName tag))"
  proof
    assume a: "0 \<le> r \<and> r \<le> int (length stack) - 1 \<and> toLowerCase (stack ! nat r) = toLowerCase (tagName tag)"
    then have "nat r < length stack" by linarith
    with assms(2) a show False by blast
  qed
  with tm have "r = -1" unfolding topmostMatch_def by blast
  then show ?thesis using assms(1) by (simp add: parse_step_def Let_def r_def [symmetric])
qed

lemma unmatched_close_scenario:
  "parse_tags (findAllTags ''</div>'') =
     ([createColoredRange 0 2 0, createColoredRange 2 5 0, createColoredRange 5 6 0], [])"
  by code_simp

lemma parse_step_void:
  assumes "tagType v = SelfCloseTag \<or> (tagType v = OpenTag \<and> toLowerCase (tagName v) \<in> set VOID_ELEMENTS)"
  shows "parse_step (rs, st) v = (rs @ createTagRanges v (int (length st)), st)"
  using assms by (auto simp: parse_step_def Let_def)

lemma parse_tags_insert_void:
  assumes "tagType v = SelfCloseTag \<or> (tagType v = OpenTag \<and> toLowerCase (tagName v) \<in> set VOID_ELEMENTS)"
  shows "\<exists>R1 S1 R2 S2.
           parse_tags tags1 = (R1, S1) \<and> foldl parse_step ([], S1) tags2 = (R2, S2) \<and>
           parse_tags (tags1 @ tags2) = (R1 @ R2, S2) \<and>
           parse_tags (tags1 @ v # tags2) = (R1 @ createTagRanges v (int (length S1)) @ R2, S2)"
proof -
  obtain R1 S1 where a: "parse_tags tags1 = (R1, S1)" by (cases "parse_tags tags1")
  obtain R2 S2 where b: "foldl parse_step ([], S1) tags2 = (R2, S2)"
    by (cases "foldl parse_step ([], S1) tags2")
  have c: "parse_tags (tags1 @ tags2) = (R1 @ R2, S2)"
    using a b foldl_parse_step_ranges [of R1 S1 tags2] by (simp add: parse_tags_def)
  have d: "parse_tags (tags1 @ v # tags2) = (R1 @ createTagRanges v (int (length S1)) @ R2, S2)"
    using a b parse_step_void [OF assms, of R1 S1]
      foldl_parse_step_ranges [of "R1 @ createTagRanges v (int (length S1))" S1 tags2]
    by (simp add: parse_tags_def)
  from a b c d show ?thesis by blast
qed

lemma void_scenario:
  \<open>parse_tags (findAllTags ''<img src="x"><p>t</p>'') =
     ([createColoredRange 0 1 0, createColoredRange 1 4 0, createColoredRange 12 13 0,
       createColoredRange 13 14 0, createColoredRange 14 15 0, createColoredRange 15 16 0,
       createColoredRange 17 19 0, createColoredRange 19 20 0, createColoredRange 20 21 0], [])\<close>
  by code_simp

lemma void_scenario_img:
  \<open>parse_tags (findAllTags ''<img src="x">'') =
     ([createColoredRange 0 1 0, createColoredRange 1 4 0, createColoredRange 12 13 0], [])\<close>
  by code_simp

lemma findTagEnd_loop_Some:
  "findTagEnd_loop t isClosing i inString stringChar = Some (e, sc) \<Longrightarrow>
     i < e \<and> e \<le> length t \<and> t ! (e - 1) = CHR ''>'' \<and>
     (sc \<longrightarrow> 2 \<le> e \<and> t ! (e - 2) = CHR ''/'' \<and> \<not> isClosing)"
proof (induction t isClosing i inString stringChar rule: findTagEnd_loop.induct)
  case (1 t isClosing i inString stringChar)
  show ?case
  proof (cases "i < length t")
    case False
    with "1.prems" show ?thesis by (simp add: findTagEnd_loop.simps [of t isClosing i])
  next
    case True
    note il = True
    show ?thesis
    proof (cases inString)
      case True
      show ?thesis
      proof (cases "Some (t ! i) = stringChar \<and> charAtI t (int i - 1) \<noteq> Some BACKSLASH")
        case c: True
        with il True "1.prems" have "findTagEnd_loop t isClosing (i + 1) False stringChar = Some (e, sc)"
          by (simp add: findTagEnd_loop.simps [of t isClosing i])
        from "1.IH"(1) [OF il True c this] show ?thesis by simp
      next
        case c: False
        with il True "1.prems" have "findTagEnd_loop t isClosing (i + 1) True stringChar = Some (e, sc)"
          by (simp add: findTagEnd_loop.simps [of t isClosing i] del: not_Some_eq)
        from "1.IH"(2) [OF il True c this] show ?thesis by simp
      qed
    next
      case False
      note ns = False
      show ?thesis
      proof (cases "t ! i = DQUOTE \<or> t ! i = SQUOTE")
        case q: True
        with il ns "1.prems" have "findTagEnd_loop t isClosing (i + 1) True (Some (t ! i)) = Some (e, sc)"
          by (simp add: findTagEnd_loop.simps [of t isClosing i])
        from "1.IH"(3) [OF il ns q this] show ?thesis by simp
      next
        case q: False
        show ?thesis
        proof (cases "t ! i = CHR ''>''")
          case True
          with il ns q "1.prems" have "e = i + 1" "sc = (\<not> isClosing \<and> charAtI t (int i - 1) = Some CHR ''/'')"
            by (simp_all add: findTagEnd_loop.simps [of t isClosing i])
          moreover have "charAtI t (int i - 1) = Some CHR ''/'' \<Longrightarrow> 1 \<le> i \<and> t ! (i - 1) = CHR ''/''"
            by (auto simp: charAtI_def nat_diff_distrib split: if_splits)
          ultimately show ?thesis using il True by auto
        next
          case g: False
          show ?thesis
          proof (cases "t ! i = CHR ''<''")
            case True
            with il ns q g "1.prems" show ?thesis by (simp add: findTagEnd_loop.simps [of t isClosing i])
          next
            case l: False
            with il ns q g "1.prems" have "findTagEnd_loop t isClosing (i + 1) False stringChar = Some (e, sc)"
              by (simp add: findTagEnd_loop.simps [of t isClosing i])
            from "1.IH"(4) [OF il ns q g l this] show ?thesis by simp
          qed
        qed
      qed
    qed
  qed
qed

lemma matchTagStartAt_Some:
  assumes "matchTagStartAt t p = Some (c, n)"
  shows "p < length t" "t ! p = CHR ''<''" "c \<longleftrightarrow> (p + 1 < length t \<and> t ! (p + 1) = CHR ''/'')"
    "(if c then p + 2 else p + 1) < length t" "isLetter (t ! (if c then p + 2 else p + 1))"
  using assms
  by (auto simp: matchTagStartAt_def charAt_def Let_def split: if_splits option.splits)

lemma candidateTag_Some:
  assumes "candidateTag t idx c n = Some tag"
  shows "bracketStart tag = idx" "tagName tag = n"
    "nameStart tag = (if c then idx + 2 else idx + 1)"
    "tagType tag = CloseTag \<longleftrightarrow> c"
    "1 \<le> bracketEnd tag" "t ! (bracketEnd tag - 1) = CHR ''>''"
    "tagType tag = SelfCloseTag \<longrightarrow> 2 \<le> bracketEnd tag \<and> t ! (bracketEnd tag - 2) = CHR ''/''"
proof -
  obtain e sc where f: "findTagEnd t ((if c then idx + 2 else idx + 1) + length n) c = Some (e, sc)"
    using assms by (auto simp: candidateTag_def Let_def split: option.splits)
  from findTagEnd_loop_Some [OF f [unfolded findTagEnd_def]]
  have e: "1 \<le> e" "t ! (e - 1) = CHR ''>''" "sc \<longrightarrow> 2 \<le> e \<and> t ! (e - 2) = CHR ''/'' \<and> \<not> c"
    by auto
  have tag: "tag = (if c then mkTag CloseTag n idx e (idx + 2) (idx + 2 + length n)
                    else if sc then mkTag SelfCloseTag n idx e (idx + 1) (idx + 1 + length n)
                    else mkTag OpenTag n idx e (idx + 1) (idx + 1 + length n))"
    using assms f by (auto simp: candidateTag_def Let_def split: if_splits)
  show "bracketStart tag = idx" "tagName tag = n" "nameStart tag = (if c then idx + 2 else idx + 1)"
    "tagType tag = CloseTag \<longleftrightarrow> c" "1 \<le> bracketEnd tag" "t ! (bracketEnd tag - 1) = CHR ''>''"
    "tagType tag = SelfCloseTag \<longrightarrow> 2 \<le> bracketEnd tag \<and> t ! (bracketEnd tag - 2) = CHR ''/''"
    using e by (auto simp: tag mkTag_def)
qed

lemma findAllTags_loop_mem:
  "tag \<in> set (findAllTags_loop t q) \<Longrightarrow>
     \<exists>c. q \<le> bracketStart tag \<and> matchTagStartAt t (bracketStart tag) = Some (c, tagName tag) \<and>
         candidateTag t (bracketStart tag) c (tagName tag) = Some tag"
proof (induction t q rule: findAllTags_loop.induct)
  case (1 t lastIndex)
  show ?case
  proof (cases "tagStartRegex_exec t lastIndex")
    case None
    with "1.prems" show ?thesis by (simp add: findAllTags_loop.simps [of t lastIndex])
  next
    case (Some x)
    obtain idx c n where x: "x = (idx, c, n)" by (cases x)
    note ex = Some [unfolded x]
    from tagStartRegex_exec_Some [OF ex]
    have m: "lastIndex \<le> idx" "matchTagStartAt t idx = Some (c, n)" by auto
    have ne: "lastIndex \<le> candidateNameEnd idx c n" using m(1) by (simp add: candidateNameEnd_def)
    show ?thesis
    proof (cases "candidateTag t idx c n")
      case None
      with ex "1.prems" have "tag \<in> set (findAllTags_loop t (candidateNameEnd idx c n))"
        by (simp add: findAllTags_loop.simps [of t lastIndex])
      from "1.IH"(1) [OF ex refl refl None this] ne show ?thesis by auto
    next
      case (Some tg)
      with ex "1.prems" have "tag = tg \<or> tag \<in> set (findAllTags_loop t (candidateNameEnd idx c n))"
        by (simp add: findAllTags_loop.simps [of t lastIndex])
      then show ?thesis
      proof
        assume "tag = tg"
        with Some candidateTag_Some(1,2) [OF Some] m show ?thesis by auto
      next
        assume "tag \<in> set (findAllTags_loop t (candidateNameEnd idx c n))"
        from "1.IH"(2) [OF ex refl refl Some this] ne show ?thesis by auto
      qed
    qed
  qed
qed

lemma foldl_parse_step_mem:
  "r \<in> set (fst (foldl parse_step (rs, st) tags)) \<Longrightarrow>
     r \<in> set rs \<or> (\<exists>tag\<in>set tags. \<exists>d. r \<in> set (createTagRanges tag d))"
proof (induction tags arbitrary: rs st rule: rev_induct)
  case Nil
  then show ?case by simp
next
  case (snoc tag tags)
  obtain rs' st' where f: "foldl parse_step (rs, st) tags = (rs', st')"
    by (cases "foldl parse_step (rs, st) tags")
  have "\<exists>d st''. parse_step (rs', st') tag = (rs' @ createTagRanges tag d, st'')"
    by (cases "tagType tag") (auto simp: parse_step_def Let_def)
  then obtain d st'' where p: "parse_step (rs', st') tag = (rs' @ createTagRanges tag d, st'')" by blast
  from snoc.prems have "r \<in> set rs' \<or> r \<in> set (createTagRanges tag d)"
    by (simp add: f p)
  then show ?case
  proof
    assume "r \<in> set rs'"
    then have "r \<in> set (fst (foldl parse_step (rs, st) tags))" by (simp add: f)
    from snoc.IH [OF this] show ?thesis by auto
  next
    assume "r \<in> set (createTagRanges tag d)"
    then show ?thesis by auto
  qed
qed

lemma createTagRanges_start:
  "r \<in> set (createTagRanges tag d) \<Longrightarrow>
     startOffset r = int (bracketStart tag) \<or> startOffset r = int (nameStart tag) \<or>
     (tagType tag \<noteq> SelfCloseTag \<and> startOffset r = int (bracketEnd tag) - 1) \<or>
     (tagType tag = SelfCloseTag \<and> startOffset r = int (bracketEnd tag) - 2)"
  by (auto simp: createTagRanges_def createColoredRange_def split: if_splits)

lemma not_letter_lt [simp]: "\<not> isLetter CHR ''<''" by (simp add: isLetter_def)
lemma not_letter_gt [simp]: "\<not> isLetter CHR ''>''" by (simp add: isLetter_def)

lemma failed_candidate_no_tag:
  assumes m: "matchTagStartAt t p = Some (isClosing, name)"
    and f: "findTagEnd t (candidateNameEnd p isClosing name) isClosing = None"
    and tag: "tag \<in> set (findAllTags_loop t q)"
  shows "bracketStart tag \<noteq> p \<and> nameStart tag \<noteq> (if isClosing then p + 2 else p + 1)"
proof -
  from findAllTags_loop_mem [OF tag] obtain c where
    c: "matchTagStartAt t (bracketStart tag) = Some (c, tagName tag)"
       "candidateTag t (bracketStart tag) c (tagName tag) = Some tag" by blast
  have none: "candidateTag t p isClosing name = None"
    using f by (simp add: candidateTag_def candidateNameEnd_def Let_def)
  have a: "bracketStart tag \<noteq> p"
  proof
    assume "bracketStart tag = p"
    with c m none show False by simp
  qed
  note mp = matchTagStartAt_Some [OF m]
  note mt = matchTagStartAt_Some [OF c(1)]
  note ct = candidateTag_Some [OF c(2)]
  have b: "nameStart tag \<noteq> (if isClosing then p + 2 else p + 1)"
  proof
    assume e: "nameStart tag = (if isClosing then p + 2 else p + 1)"
    show False
    proof (cases isClosing; cases c)
      assume "isClosing" "c"
      with e ct(3) a show False by simp
    next
      assume "isClosing" "\<not> c"
      with e ct(3) have "bracketStart tag = p + 1" by simp
      with mt(2) mp(3) \<open>isClosing\<close> show False by simp
    next
      assume "\<not> isClosing" "c"
      with e ct(3) have "bracketStart tag + 1 = p" by simp
      with mt(3) mp(2) \<open>c\<close> show False by auto
    next
      assume "\<not> isClosing" "\<not> c"
      with e ct(3) a show False by simp
    qed
  qed
  from a b show ?thesis by simp
qed

lemma failed_candidate_no_span:
  assumes m: "matchTagStartAt t p = Some (isClosing, name)"
    and f: "findTagEnd t (candidateNameEnd p isClosing name) isClosing = None"
    and r: "r \<in> set (parse t)"
  shows "startOffset r \<noteq> int p \<and> startOffset r \<noteq> int (if isClosing then p + 2 else p + 1)"
proof -
  from r foldl_parse_step_mem [of r "[]" "[]" "findAllTags t"]
  obtain tag d where tag: "tag \<in> set (findAllTags_loop t 0)" and rd: "r \<in> set (createTagRanges tag d)"
    by (auto simp: parse_def parse_tags_def findAllTags_def)
  from findAllTags_loop_mem [OF tag] obtain c where
    c: "matchTagStartAt t (bracketStart tag) = Some (c, tagName tag)"
       "candidateTag t (bracketStart tag) c (tagName tag) = Some tag" by blast
  note mp = matchTagStartAt_Some [OF m]
  note mt = matchTagStartAt_Some [OF c(1)]
  note ct = candidateTag_Some [OF c(2)]
  note nt = failed_candidate_no_tag [OF m f tag]
  define q where "q = (if isClosing then p + 2 else p + 1)"
  have lq: "isLetter (t ! q)" using mp(5) by (simp add: q_def)
  have lp: "t ! p = CHR ''<''" by (rule mp(2))
  have ln: "isLetter (t ! nameStart tag)" using mt(5) ct(3) by simp
  have lb: "t ! bracketStart tag = CHR ''<''" by (rule mt(2))
  from createTagRanges_start [OF rd]
  have "startOffset r \<noteq> int p \<and> startOffset r \<noteq> int q"
  proof (elim disjE conjE)
    assume "startOffset r = int (bracketStart tag)"
    moreover have "bracketStart tag \<noteq> q" using lb lq by auto
    ultimately show ?thesis using nt by simp
  next
    assume "startOffset r = int (nameStart tag)"
    moreover have "nameStart tag \<noteq> p" using ln lp by auto
    ultimately show ?thesis using nt by (simp add: q_def)
  next
    assume s: "startOffset r = int (bracketEnd tag) - 1"
    have "bracketEnd tag - 1 \<noteq> p" "bracketEnd tag - 1 \<noteq> q" using ct(6) lp lq by auto
    with s ct(5) show ?thesis by auto
  next
    assume s: "startOffset r = int (bracketEnd tag) - 2" and sc: "tagType tag = SelfCloseTag"
    from ct(7) sc have e: "2 \<le> bracketEnd tag" "t ! (bracketEnd tag - 2) = CHR ''/''" by auto
    have "bracketEnd tag - 2 \<noteq> p" "bracketEnd tag - 2 \<noteq> q" using e(2) lp lq by auto
    with s e(1) show ?thesis by auto
  qed
  then show ?thesis by (simp add: q_def)
qed

lemma failed_candidate_resume:
  assumes "tagStartRegex_exec t lastIndex = Some (p, isClosing, name)"
    and "findTagEnd t (candidateNameEnd p isClosing name) isClosing = None"
  shows "findAllTags_loop t lastIndex = findAllTags_loop t (candidateNameEnd p isClosing name)"
proof -
  have "candidateTag t p isClosing name = None"
    using assms(2) by (simp add: candidateTag_def candidateNameEnd_def Let_def)
  with assms(1) show ?thesis by (simp add: findAllTags_loop.simps [of t lastIndex])
qed

lemma findTagEnd_no_gt:
  assumes "CHR ''>'' \<notin> set (drop s t)"
  shows "findTagEnd t s c = None"
proof (cases "findTagEnd t s c")
  case None
  then show ?thesis .
next
  case (Some x)
  obtain e sc where x: "x = (e, sc)" by (cases x)
  from findTagEnd_loop_Some [OF Some [unfolded x findTagEnd_def]]
  have e: "s < e" "e \<le> length t" "t ! (e - 1) = CHR ''>''" by auto
  have "drop s t ! (e - 1 - s) = CHR ''>''" using e by simp
  moreover have "e - 1 - s < length (drop s t)" using e by simp
  ultimately have "CHR ''>'' \<in> set (drop s t)" by (metis nth_mem)
  with assms show ?thesis by simp
qed

lemma findTagEnd_loop_interrupted:
  "DQUOTE \<notin> set seg \<Longrightarrow> SQUOTE \<notin> set seg \<Longrightarrow> CHR ''>'' \<notin> set seg \<Longrightarrow>
     findTagEnd_loop (pre @ seg @ CHR ''<'' # rest) c (length pre) False sc = None"
proof (induction seg arbitrary: pre)
  case Nil
  show ?case by (simp add: findTagEnd_loop.simps [of _ c "length pre"])
next
  case (Cons x xs)
  have "findTagEnd_loop ((pre @ [x]) @ xs @ CHR ''<'' # rest) c (length (pre @ [x])) False sc = None"
    using Cons.prems by (intro Cons.IH) auto
  moreover have "x \<noteq> DQUOTE" "x \<noteq> SQUOTE" "x \<noteq> CHR ''>''" using Cons.prems by auto
  ultimately show ?case
    by (simp add: findTagEnd_loop.simps [of _ c "length pre"] nth_append)
qed

section \<open>Properties of the ObjectParser\<close>

lemma charAtI_append_mid:
  "charAtI (pre @ c # rest) (int (length pre)) = Some c"
  by (simp add: charAtI_def nth_append)

lemma skipSpaceBack_over:
  "list_all isSpace ws \<Longrightarrow>
     skipSpaceBack (pre @ ws @ rest) (int (length pre + length ws) - 1) =
     skipSpaceBack (pre @ ws @ rest) (int (length pre) - 1)"
proof (induction ws arbitrary: rest rule: rev_induct)
  case Nil
  show ?case by simp
next
  case (snoc w ws)
  let ?t = "pre @ (ws @ [w]) @ rest"
  have w: "isSpace w" and ws: "list_all isSpace ws" using snoc.prems by auto
  have c: "charAtI ?t (int (length pre + length ws)) = Some w"
    using charAtI_append_mid [of "pre @ ws" w rest] by simp
  have "skipSpaceBack ?t (int (length pre + length (ws @ [w])) - 1) =
        skipSpaceBack ?t (int (length pre + length ws) - 1)"
    using w c by (subst skipSpaceBack.simps) (simp add: testClass_def)
  also have "\<dots> = skipSpaceBack ?t (int (length pre) - 1)"
    using snoc.IH [OF ws, of "w # rest"] by simp
  finally show ?case .
qed

lemma skipSpaceBack_stop:
  "\<not> isSpace c \<Longrightarrow> skipSpaceBack (pre @ c # rest) (int (length pre)) = int (length pre)"
  using charAtI_append_mid [of pre c rest]
  by (subst skipSpaceBack.simps) (simp add: testClass_def)

lemma skipSpaceBack_to_char:
  assumes "list_all isSpace ws" and "\<not> isSpace c"
  shows "skipSpaceBack (pre @ c # ws @ rest) (int (length pre + 1 + length ws) - 1) = int (length pre)"
proof -
  have "skipSpaceBack ((pre @ [c]) @ ws @ rest) (int (length (pre @ [c]) + length ws) - 1) =
        skipSpaceBack ((pre @ [c]) @ ws @ rest) (int (length (pre @ [c])) - 1)"
    by (rule skipSpaceBack_over [OF assms(1)])
  then show ?thesis using skipSpaceBack_stop [OF assms(2), of pre "ws @ rest"] by simp
qed

lemma object_context_char:
  assumes "c \<in> set OBJECT_CONTEXT_CHARS" and "list_all isSpace ws"
  shows "obj_isObjectContext (pre @ c # ws @ CHR ''{'' # post) (length pre + 1 + length ws)"
proof -
  have ns: "\<not> isSpace c" using assms(1) by (auto simp: OBJECT_CONTEXT_CHARS_def isSpace_def)
  have i: "skipSpaceBack (pre @ c # ws @ CHR ''{'' # post) (int (length pre + 1 + length ws) - 1) = int (length pre)"
    by (rule skipSpaceBack_to_char [OF assms(2) ns])
  show ?thesis
    unfolding obj_isObjectContext_def i Let_def
    using assms(1) charAtI_append_mid [of pre c "ws @ CHR ''{'' # post"] by simp
qed

lemma getKeywordBefore_loop_over:
  "list_all isLetter kw \<Longrightarrow>
     getKeywordBefore_loop (pre @ kw @ rest) (int (length pre + length kw)) =
     getKeywordBefore_loop (pre @ kw @ rest) (int (length pre))"
proof (induction kw arbitrary: rest rule: rev_induct)
  case Nil
  show ?case by simp
next
  case (snoc k kw)
  let ?t = "pre @ (kw @ [k]) @ rest"
  have k: "isLetter k" and kw: "list_all isLetter kw" using snoc.prems by auto
  have c: "charAtI ?t (int (length pre + length kw)) = Some k"
    using charAtI_append_mid [of "pre @ kw" k rest] by simp
  have "getKeywordBefore_loop ?t (int (length pre + length (kw @ [k]))) =
        getKeywordBefore_loop ?t (int (length pre + length kw))"
    using k c by (subst getKeywordBefore_loop.simps) (simp add: testClass_def)
  also have "\<dots> = getKeywordBefore_loop ?t (int (length pre))"
    using snoc.IH [OF kw, of "k # rest"] by simp
  finally show ?case .
qed

lemma getKeywordBefore_loop_stop:
  assumes "pre = [] \<or> \<not> isLetter (last pre)"
  shows "getKeywordBefore_loop (pre @ rest) (int (length pre)) = int (length pre)"
proof (cases "pre = []")
  case True
  then show ?thesis by (subst getKeywordBefore_loop.simps) simp
next
  case False
  then obtain p c where p: "pre = p @ [c]" by (metis append_butlast_last_id)
  with assms have "\<not> isLetter c" by simp
  moreover have "charAtI (pre @ rest) (int (length pre) - 1) = Some c"
    using charAtI_append_mid [of p c rest] p by simp
  ultimately show ?thesis by (subst getKeywordBefore_loop.simps) (simp add: testClass_def)
qed

lemma getKeywordBefore_word:
  assumes "list_all isLetter kw" and "kw \<noteq> []" and "pre = [] \<or> \<not> isLetter (last pre)"
  shows "getKeywordBefore (pre @ kw @ rest) (int (length pre + length kw) - 1) = Some kw"
proof -
  let ?t = "pre @ kw @ rest"
  obtain k0 k where k: "kw = k0 @ [k]" using assms(2) by (metis append_butlast_last_id)
  have l: "isLetter k" and l0: "list_all isLetter k0" using assms(1) k by auto
  have c: "charAtI ?t (int (length pre + length kw) - 1) = Some k"
    using charAtI_append_mid [of "pre @ k0" k rest] k by simp
  have "getKeywordBefore_loop ?t (int (length pre + length kw) - 1) =
          getKeywordBefore_loop (pre @ k0 @ (k # rest)) (int (length pre + length k0))"
    using k by simp
  also have "\<dots> = getKeywordBefore_loop (pre @ k0 @ k # rest) (int (length pre))"
    by (rule getKeywordBefore_loop_over [OF l0])
  also have "\<dots> = int (length pre)"
    using getKeywordBefore_loop_stop [OF assms(3), of "k0 @ k # rest"] by simp
  finally have s: "getKeywordBefore_loop ?t (int (length pre + length kw) - 1) = int (length pre)" .
  have "slice ?t (length pre) (length pre + length kw) = kw" by (simp add: slice_def)
  moreover have "nat (int (length pre + length kw) - 1 + 1) = length pre + length kw" by simp
  moreover have "\<not> int (length pre) + int (length kw) < 1" using assms(2) by (cases kw) simp_all
  ultimately show ?thesis
    unfolding getKeywordBefore_def s using c l
    by (simp add: testClass_def)
qed

lemma BLOCK_KEYWORDS_letters:
  "kw \<in> set BLOCK_KEYWORDS \<Longrightarrow> list_all isLetter kw \<and> kw \<noteq> [] \<and> kw \<notin> set OBJECT_CONTEXT_KEYWORDS"
  by (auto simp: BLOCK_KEYWORDS_def OBJECT_CONTEXT_KEYWORDS_def isLetter_def)

lemma letter_facts:
  "isLetter c \<Longrightarrow> \<not> isSpace c \<and> c \<noteq> CHR ''>'' \<and> c \<noteq> CHR '')'' \<and> c \<notin> set OBJECT_CONTEXT_CHARS"
  by (auto simp: isLetter_def isSpace_def OBJECT_CONTEXT_CHARS_def)

lemma block_keyword_context:
  assumes "kw \<in> set BLOCK_KEYWORDS" and "list_all isSpace ws"
    and "pre = [] \<or> \<not> isLetter (last pre)"
  shows "\<not> obj_isObjectContext (pre @ kw @ ws @ CHR ''{'' # post) (length pre + length kw + length ws)"
proof -
  note b = BLOCK_KEYWORDS_letters [OF assms(1)]
  obtain k0 k where k: "kw = k0 @ [k]" using b by (metis append_butlast_last_id)
  have l: "isLetter k" using b k by auto
  note lf = letter_facts [OF l]
  let ?t = "pre @ kw @ ws @ CHR ''{'' # post"
  have t: "?t = (pre @ k0) @ k # ws @ CHR ''{'' # post" using k by simp
  have i: "skipSpaceBack ?t (int (length pre + length kw + length ws) - 1) = int (length pre + length kw) - 1"
    using skipSpaceBack_to_char [OF assms(2), of k "pre @ k0" "CHR ''{'' # post"] lf k
    by (simp add: add.commute add.left_commute)
  have c: "charAtI ?t (int (length pre + length kw) - 1) = Some k"
    using charAtI_append_mid [of "pre @ k0" k "ws @ CHR ''{'' # post"] k by simp
  have g: "getKeywordBefore ?t (int (length pre + length kw) - 1) = Some kw"
    by (rule getKeywordBefore_word) (use b assms(3) in auto)
  show ?thesis
    unfolding obj_isObjectContext_def i Let_def c g
    using lf b assms(1) k by simp
qed

lemma brace_context:
  assumes "c = CHR ''{'' \<or> c = CHR ''}''" and "list_all isSpace ws"
  shows "\<not> obj_isObjectContext (pre @ c # ws @ CHR ''{'' # post) (length pre + 1 + length ws)"
proof -
  have ns: "\<not> isSpace c" using assms(1) by (auto simp: isSpace_def)
  have i: "skipSpaceBack (pre @ c # ws @ CHR ''{'' # post) (int (length pre + 1 + length ws) - 1) =
             int (length pre)"
    by (rule skipSpaceBack_to_char [OF assms(2) ns])
  have c: "charAtI (pre @ c # ws @ CHR ''{'' # post) (int (length pre)) = Some c"
    by (rule charAtI_append_mid)
  have g: "getKeywordBefore (pre @ c # ws @ CHR ''{'' # post) (int (length pre)) = None"
    using assms(1) c by (auto simp: getKeywordBefore_def testClass_def isLetter_def)
  show ?thesis
    unfolding obj_isObjectContext_def i Let_def c g
    using assms(1) by (auto simp: OBJECT_CONTEXT_CHARS_def)
qed

lemma obj_step_open_brace:
  assumes "o_i st < length t" and "t ! o_i st = CHR ''{''"
  shows "obj_step cfg t st =
           st\<lparr>o_braceStack := o_braceStack st @
                 [(obj_isObjectContext t (o_i st), objectFrames (o_braceStack st))],
              o_braces :=
                (if obj_isObjectContext t (o_i st)
                 then o_braces st @
                   [\<lparr>bm_position = o_i st, bm_isObject = True,
                     bm_depth = objectFrames (o_braceStack st)\<rparr>]
                 else o_braces st),
              o_i := o_i st + 1\<rparr>"
  using assms by (simp add: obj_step_def obj_braceStep_def Let_def)

lemma obj_step_stray_close:
  assumes "o_i st < length t" and "t ! o_i st = CHR ''}''" and "o_braceStack st = []"
  shows "obj_step cfg t st = st\<lparr>o_i := o_i st + 1\<rparr>"
  using assms by (simp add: obj_step_def obj_braceStep_def Let_def pop_def)

lemma obj_loop_ends: "length t \<le> o_i (obj_loop cfg t st)"
proof (induction cfg t st rule: obj_loop.induct)
  case (1 cfg t st)
  show ?case
  proof (cases "o_i st < length t")
    case True
    with "1.IH" show ?thesis by (simp add: obj_loop.simps [of cfg t st])
  next
    case False
    then show ?thesis by (simp add: obj_loop.simps [of cfg t st])
  qed
qed

lemma obj_scenario4: "obj_parse defaultConfig ''if (x) { y(); }'' = []"
  by code_simp

lemma obj_scenario3:
  "obj_parse defaultConfig ''const x = {a: 1}'' =
     [createColoredRange 10 11 0, createColoredRange 15 16 0, createColoredRange 11 12 0]"
  by code_simp

section \<open>Depths are never negative\<close>

lemma parse_step_form:
  "\<exists>n st'. parse_step (rs, st) tag = (rs @ createTagRanges tag (int n), st')"
  by (cases "tagType tag") (auto simp: parse_step_def Let_def)

lemma foldl_parse_step_depth:
  "list_all (\<lambda>r. 0 \<le> depth r) rs \<Longrightarrow>
     list_all (\<lambda>r. 0 \<le> depth r) (fst (foldl parse_step (rs, st) tags))"
proof (induction tags arbitrary: rs st)
  case Nil
  then show ?case by simp
next
  case (Cons tag tags)
  obtain n st' where p: "parse_step (rs, st) tag = (rs @ createTagRanges tag (int n), st')"
    using parse_step_form by blast
  have "list_all (\<lambda>r. 0 \<le> depth r) (createTagRanges tag (int n))"
    by (auto simp: list_all_iff dest: createTagRanges_depth)
  with Cons.prems have "list_all (\<lambda>r. 0 \<le> depth r) (rs @ createTagRanges tag (int n))" by simp
  from Cons.IH [OF this, of st'] show ?case by (simp add: p)
qed

lemma parse_depth_nonneg: "list_all (\<lambda>r. 0 \<le> depth r) (parse t)"
  unfolding parse_def parse_tags_def by (rule foldl_parse_step_depth) simp

lemma jsx_findMatchingOpenTag_loop_range:
  "i < int (length stack) \<Longrightarrow>
     jsx_findMatchingOpenTag_loop stack name i = -1 \<or>
     (0 \<le> jsx_findMatchingOpenTag_loop stack name i \<and>
      jsx_findMatchingOpenTag_loop stack name i < int (length stack))"
proof (induction stack name i rule: jsx_findMatchingOpenTag_loop.induct)
  case (1 stack name i)
  show ?case
  proof (cases "i \<ge> 0")
    case False
    then show ?thesis by (simp add: jsx_findMatchingOpenTag_loop.simps [of stack name i])
  next
    case True
    show ?thesis
    proof (cases "stack ! nat i = name")
      case m: True
      with True "1.prems" show ?thesis by (simp add: jsx_findMatchingOpenTag_loop.simps [of stack name i])
    next
      case m: False
      have "jsx_findMatchingOpenTag_loop stack name i = jsx_findMatchingOpenTag_loop stack name (i - 1)"
        using True m by (simp add: jsx_findMatchingOpenTag_loop.simps [of stack name i])
      with "1.IH" [OF True m] "1.prems" show ?thesis by simp
    qed
  qed
qed

lemma jsx_findMatchingOpenTag_range:
  "jsx_findMatchingOpenTag stack name = -1 \<or>
   (0 \<le> jsx_findMatchingOpenTag stack name \<and> jsx_findMatchingOpenTag stack name < int (length stack))"
  unfolding jsx_findMatchingOpenTag_def by (rule jsx_findMatchingOpenTag_loop_range) simp

lemma jsx_inv_depth_nonneg: "jsx_inv st \<Longrightarrow> 0 \<le> js_depth st"
  by (simp add: jsx_inv_def)

lemma jsx_inv_skip: "jsx_inv st \<Longrightarrow> jsx_inv (st\<lparr>js_i := p\<rparr>)"
  by (simp add: jsx_inv_def)

lemma tokenize_closeTag_inv:
  assumes "jsx_inv st" and "\<not> js_inJsxExpression st"
  shows "jsx_inv (tokenize_closeTag st closeTag)"
proof -
  define r where "r = jsx_findMatchingOpenTag (js_tagStack st) (ct_tagName closeTag)"
  from jsx_findMatchingOpenTag_range [of "js_tagStack st" "ct_tagName closeTag"]
  have "r = -1 \<or> (0 \<le> r \<and> r < int (length (js_tagStack st)))" by (simp add: r_def)
  then show ?thesis
  proof
    assume "r = -1"
    with assms show ?thesis
      by (simp add: tokenize_closeTag_def Let_def r_def [symmetric] jsx_inv_def mkToken_def)
  next
    assume "0 \<le> r \<and> r < int (length (js_tagStack st))"
    then have "r \<noteq> -1" "min (length (js_tagStack st)) (nat r) = nat r" "0 \<le> r" by auto
    with assms show ?thesis
      by (simp add: tokenize_closeTag_def Let_def r_def [symmetric] jsx_inv_def mkToken_def)
  qed
qed

lemma tokenize_openTag_inv:
  assumes "jsx_inv st" and "\<not> js_inJsxExpression st"
  shows "jsx_inv (tokenize_openTag st openTag)"
  using assms by (simp add: tokenize_openTag_def Let_def jsx_inv_def mkToken_def)

lemma tokenize_rest_inv:
  assumes "jsx_inv st" and "\<not> js_inJsxExpression st"
  shows "jsx_inv (tokenize_rest cfg t st)"
proof -
  have d: "0 \<le> js_depth st" using assms(1) by (rule jsx_inv_depth_nonneg)
  have d1: "js_tagStack st \<noteq> [] \<Longrightarrow> 0 \<le> js_depth st - 1"
    using assms(1) by (cases "js_tagStack st") (simp_all add: jsx_inv_def)
  have d2: "js_objectBraceStack st \<noteq> [] \<Longrightarrow> 0 \<le> js_depth st - 1 \<and> 0 \<le> last (js_objectBraceStack st)
      \<and> list_all (\<lambda>d. 0 \<le> d) (butlast (js_objectBraceStack st))
      \<and> int (length (js_objectBraceStack st) - Suc 0) = int (length (js_objectBraceStack st)) - 1"
    using assms(1) by (cases "js_objectBraceStack st" rule: rev_cases) (simp_all add: jsx_inv_def)
  show ?thesis
  proof (cases "t ! js_i st = CHR ''{'' \<and> length (js_tagStack st) > 0")
    case True
    with d1 have "0 \<le> js_depth st - 1" by simp
    with True assms have "jsx_inv (st\<lparr>js_inJsxExpression := True, js_jsxExpressionBraceDepth := 1,
           js_tokens := js_tokens st @
             [mkToken ExpressionStart (int (js_i st)) (int (js_i st) + 1) (js_depth st - 1) None],
           js_i := js_i st + 1\<rparr>)"
      unfolding jsx_inv_def by (simp add: mkToken_def)
    with True show ?thesis by (simp add: tokenize_rest_def Let_def)
  next
    case c1: False
    show ?thesis
    proof (cases "objectBracesEnabled cfg \<and> t ! js_i st = CHR ''{'' \<and> length (js_tagStack st) = 0")
      case True
      with c1 assms d show ?thesis by (simp add: tokenize_rest_def Let_def jsx_inv_def mkToken_def)
    next
      case c2: False
      show ?thesis
      proof (cases "objectBracesEnabled cfg \<and> t ! js_i st = CHR ''}'' \<and> length (js_tagStack st) = 0
              \<and> length (js_objectBraceStack st) > 0")
        case True
        then obtain ds d0 where s: "js_objectBraceStack st = ds @ [d0]"
          by (cases "js_objectBraceStack st" rule: rev_cases) auto
        with True c1 c2 assms show ?thesis
          by (simp add: tokenize_rest_def Let_def jsx_inv_def mkToken_def)
      next
        case c3: False
        show ?thesis
        proof (cases "colorizeKeys cfg \<and> length (js_tagStack st) = 0 \<and> length (js_objectBraceStack st) > 0")
          case False
          with c1 c2 c3 assms show ?thesis
            by (auto simp: tokenize_rest_def Let_def jsx_inv_def)
        next
          case True
          show ?thesis
          proof (cases "jsx_matchPropertyKey t (js_i st)")
            case None
            with True c1 c2 c3 assms show ?thesis
              by (auto simp: tokenize_rest_def Let_def jsx_inv_def)
          next
            case (Some k)
            obtain ks ke where k: "k = (ks, ke)" by (cases k)
            from True d2 have "0 \<le> js_depth st - 1" by simp
            with Some k True c1 c2 c3 assms show ?thesis
              by (auto simp: tokenize_rest_def Let_def jsx_inv_def mkToken_def)
          qed
        qed
      qed
    qed
  qed
qed

lemma tokenize_markup_inv:
  assumes "jsx_inv st" and "\<not> js_inJsxExpression st"
  shows "jsx_inv (tokenize_markup cfg t st)"
  using tokenize_closeTag_inv [OF assms] tokenize_openTag_inv [OF assms] tokenize_rest_inv [OF assms]
  by (simp add: tokenize_markup_def Let_def split: option.splits)

lemma tokenize_expression_inv:
  assumes "jsx_inv st" and "js_inJsxExpression st"
  shows "jsx_inv (tokenize_expression cfg t st)"
proof -
  have d: "0 \<le> js_depth st" using assms(1) by (rule jsx_inv_depth_nonneg)
  have ts: "js_tagStack st \<noteq> []" using assms by (simp add: jsx_inv_def)
  then have d1: "0 \<le> js_depth st - 1"
    using assms(1) by (cases "js_tagStack st") (simp_all add: jsx_inv_def)
  have d2: "js_objectBraceStack st \<noteq> [] \<Longrightarrow> 0 \<le> last (js_objectBraceStack st)
      \<and> list_all (\<lambda>d. 0 \<le> d) (butlast (js_objectBraceStack st))
      \<and> int (length (js_objectBraceStack st) - Suc 0) = int (length (js_objectBraceStack st)) - 1"
    using assms(1) by (cases "js_objectBraceStack st" rule: rev_cases) (simp_all add: jsx_inv_def)
  show ?thesis
  proof (cases "t ! js_i st = CHR ''{''")
    case True
    with assms d show ?thesis by (simp add: tokenize_expression_def Let_def jsx_inv_def mkToken_def)
  next
    case c1: False
    show ?thesis
    proof (cases "t ! js_i st = CHR ''}''")
      case True
      show ?thesis
      proof (cases "js_objectBraceStack st" rule: rev_cases)
        case Nil
        with True c1 assms d1 ts show ?thesis
          by (simp add: tokenize_expression_def Let_def jsx_inv_def mkToken_def)
      next
        case (snoc ds d0)
        with True c1 assms d1 ts show ?thesis
          by (simp add: tokenize_expression_def Let_def jsx_inv_def mkToken_def)
      qed
    next
      case c2: False
      show ?thesis
      proof (cases "colorizeKeys cfg \<and> length (js_objectBraceStack st) > 0")
        case False
        with c1 c2 assms show ?thesis
          by (auto simp: tokenize_expression_def Let_def jsx_inv_def)
      next
        case True
        show ?thesis
        proof (cases "jsx_matchPropertyKey t (js_i st)")
          case None
          with True c1 c2 assms show ?thesis
            by (auto simp: tokenize_expression_def Let_def jsx_inv_def)
        next
          case (Some k)
          obtain ks ke where k: "k = (ks, ke)" by (cases k)
          with Some True c1 c2 assms d1 show ?thesis
            by (auto simp: tokenize_expression_def Let_def jsx_inv_def mkToken_def)
        qed
      qed
    qed
  qed
qed

lemma tokenize_step_inv:
  assumes "jsx_inv st"
  shows "jsx_inv (tokenize_step cfg t st)"
  using jsx_inv_skip [OF assms] tokenize_expression_inv [OF assms] tokenize_markup_inv [OF assms]
  by (simp add: tokenize_step_def Let_def)

lemma tokenize_loop_inv: "jsx_inv st \<Longrightarrow> jsx_inv (tokenize_loop cfg t st)"
proof (induction cfg t st rule: tokenize_loop.induct)
  case (1 cfg t st)
  show ?case
  proof (cases "js_i st < length t")
    case True
    from "1.IH" [OF True tokenize_step_inv [OF "1.prems"]] True show ?thesis
      by (simp add: tokenize_loop.simps [of cfg t st])
  next
    case False
    with "1.prems" show ?thesis by (simp add: tokenize_loop.simps [of cfg t st])
  qed
qed

lemma jsx_inv_initial: "jsx_inv jsx_initial"
  by (simp add: jsx_inv_def jsx_initial_def)

lemma jsx_parse_depth_nonneg: "list_all (\<lambda>r. 0 \<le> depth r) (jsx_parse cfg t)"
  using tokenize_loop_inv [OF jsx_inv_initial, of cfg t]
  by (simp add: jsx_parse_def tokenize_def jsx_inv_def list_all_iff createColoredRange_def)

lemma objectFrames_nonneg: "0 \<le> objectFrames stack"
  by (simp add: objectFrames_def)

lemma objectFrames_top: "stack \<noteq> [] \<Longrightarrow> fst (last stack) \<Longrightarrow> 0 \<le> objectFrames stack - 1"
  by (cases stack rule: rev_cases) (simp_all add: objectFrames_def)

lemma obj_braceStep_inv:
  assumes "obj_inv st"
  shows "obj_inv (obj_braceStep cfg t st)"
proof (cases "t ! o_i st = CHR ''{''")
  case True
  with assms objectFrames_nonneg [of "o_braceStack st"] show ?thesis
    by (simp add: obj_braceStep_def Let_def obj_inv_def)
next
  case c1: False
  show ?thesis
  proof (cases "t ! o_i st = CHR ''}''")
    case True
    show ?thesis
    proof (cases "o_braceStack st" rule: rev_cases)
      case Nil
      with True c1 assms show ?thesis by (simp add: obj_braceStep_def Let_def obj_inv_def pop_def)
    next
      case (snoc fs f)
      with True c1 assms show ?thesis
        by (cases f) (simp add: obj_braceStep_def Let_def obj_inv_def pop_def)
    qed
  next
    case c2: False
    show ?thesis
    proof (cases "colorizeKeys cfg \<and> length (o_braceStack st) > 0 \<and> fst (last (o_braceStack st))")
      case False
      with c1 c2 assms show ?thesis by (auto simp: obj_braceStep_def Let_def obj_inv_def)
    next
      case True
      show ?thesis
      proof (cases "obj_matchPropertyKey t (o_i st)")
        case None
        with True c1 c2 assms show ?thesis by (auto simp: obj_braceStep_def Let_def obj_inv_def)
      next
        case (Some k)
        obtain ks ke where k: "k = (ks, ke)" by (cases k)
        from True have "0 \<le> objectFrames (o_braceStack st) - 1"
          using objectFrames_top [of "o_braceStack st"] by simp
        with Some k True c1 c2 assms show ?thesis
          by (auto simp: obj_braceStep_def Let_def obj_inv_def)
      qed
    qed
  qed
qed

lemma obj_step_inv:
  assumes "obj_inv st"
  shows "obj_inv (obj_step cfg t st)"
proof -
  have s: "\<And>p. obj_inv (st\<lparr>o_i := p\<rparr>)" using assms by (simp add: obj_inv_def)
  from obj_step_cases [of cfg t st] show ?thesis
    using s obj_braceStep_inv [OF assms, of cfg t] by (elim disjE conjE) simp_all
qed

lemma obj_loop_inv: "obj_inv st \<Longrightarrow> obj_inv (obj_loop cfg t st)"
proof (induction cfg t st rule: obj_loop.induct)
  case (1 cfg t st)
  show ?case
  proof (cases "o_i st < length t")
    case True
    from "1.IH" [OF True obj_step_inv [OF "1.prems"]] True show ?thesis
      by (simp add: obj_loop.simps [of cfg t st])
  next
    case False
    with "1.prems" show ?thesis by (simp add: obj_loop.simps [of cfg t st])
  qed
qed

lemma obj_parse_depth_nonneg: "list_all (\<lambda>r. 0 \<le> depth r) (obj_parse cfg t)"
proof -
  have "obj_inv obj_initial" by (simp add: obj_inv_def obj_initial_def)
  from obj_loop_inv [OF this, of cfg t] show ?thesis
    by (auto simp: obj_parse_def findObjectBracesAndKeys_def Let_def obj_inv_def list_all_iff
          braceRange_def keyRange_def createColoredRange_def)
qed

section \<open>Skipping strings, template literals and comments\<close>

lemma nth_mid [simp]: "(pre @ c # rest) ! length pre = c"
  by (simp add: nth_append)

lemma charAt_mid: "charAt (pre @ c # rest) (length pre) = Some c"
  by (simp add: charAt_def)

lemma charAt_mid1: "charAt (pre @ a # c # rest) (Suc (length pre)) = Some c"
  using charAt_mid [of "pre @ [a]" c rest] by simp

text \<open>A quoted string is skipped up to and including its closing quote.\<close>

lemma jsx_skipString_loop_quoted:
  assumes "q = DQUOTE \<or> q = SQUOTE" and "list_all (wfStrItem q) items"
  shows "jsx_skipString_loop (pre @ renderStr items @ q # post) q (length pre) =
           length pre + length (renderStr items) + 1"
  using assms(2)
proof (induction items arbitrary: pre)
  case Nil
  show ?case using assms(1)
    by (subst jsx_skipString_loop.simps) (auto simp: renderStr_def)
next
  case (Cons it items)
  have wf: "list_all (wfStrItem q) items" using Cons.prems by simp
  show ?case
  proof (cases it)
    case (SChar c)
    then have c: "c \<noteq> q" "c \<noteq> BACKSLASH" "c \<noteq> NEWLINE" using Cons.prems by auto
    have t: "pre @ renderStr (it # items) @ q # post = pre @ c # renderStr items @ q # post"
      "pre @ renderStr (it # items) @ q # post = (pre @ [c]) @ renderStr items @ q # post"
      using SChar by (simp_all add: renderStr_def)
    have "jsx_skipString_loop (pre @ c # renderStr items @ q # post) q (length pre) =
          jsx_skipString_loop (pre @ c # renderStr items @ q # post) q (length pre + 1)"
      using c assms(1) by (subst jsx_skipString_loop.simps) auto
    also have "\<dots> = length (pre @ [c]) + length (renderStr items) + 1"
      using Cons.IH [OF wf, of "pre @ [c]"] by simp
    finally show ?thesis unfolding t(1) using SChar by (simp add: renderStr_def)
  next
    case (SEscape c)
    have t: "pre @ renderStr (it # items) @ q # post = pre @ BACKSLASH # c # renderStr items @ q # post"
      using SEscape by (simp_all add: renderStr_def)
    have "jsx_skipString_loop (pre @ BACKSLASH # c # renderStr items @ q # post) q (length pre) =
          jsx_skipString_loop (pre @ BACKSLASH # c # renderStr items @ q # post) q (length pre + 2)"
      by (subst jsx_skipString_loop.simps) auto
    also have "\<dots> = length (pre @ [BACKSLASH, c]) + length (renderStr items) + 1"
      using Cons.IH [OF wf, of "pre @ [BACKSLASH, c]"] by simp
    finally show ?thesis unfolding t using SEscape by (simp add: renderStr_def)
  qed
qed

lemma obj_skipRegular_quoted:
  assumes "q = DQUOTE \<or> q = SQUOTE" and "list_all (wfStrItem q) items"
  shows "obj_skipRegular (pre @ renderStr items @ q # post) q (length pre) =
           length pre + length (renderStr items) + 1"
  using assms(2)
proof (induction items arbitrary: pre)
  case Nil
  show ?case using assms(1)
    by (subst obj_skipRegular.simps) (auto simp: renderStr_def)
next
  case (Cons it items)
  have wf: "list_all (wfStrItem q) items" using Cons.prems by simp
  show ?case
  proof (cases it)
    case (SChar c)
    then have c: "c \<noteq> q" "c \<noteq> BACKSLASH" "c \<noteq> NEWLINE" using Cons.prems by auto
    have t: "pre @ renderStr (it # items) @ q # post = pre @ c # renderStr items @ q # post"
      using SChar by (simp_all add: renderStr_def)
    have "obj_skipRegular (pre @ c # renderStr items @ q # post) q (length pre) =
          obj_skipRegular (pre @ c # renderStr items @ q # post) q (length pre + 1)"
      using c assms(1) by (subst obj_skipRegular.simps) auto
    also have "\<dots> = length (pre @ [c]) + length (renderStr items) + 1"
      using Cons.IH [OF wf, of "pre @ [c]"] by simp
    finally show ?thesis unfolding t using SChar by (simp add: renderStr_def)
  next
    case (SEscape c)
    have t: "pre @ renderStr (it # items) @ q # post = pre @ BACKSLASH # c # renderStr items @ q # post"
      using SEscape by (simp_all add: renderStr_def)
    have "obj_skipRegular (pre @ BACKSLASH # c # renderStr items @ q # post) q (length pre) =
          obj_skipRegular (pre @ BACKSLASH # c # renderStr items @ q # post) q (length pre + 2)"
      by (subst obj_skipRegular.simps) auto
    also have "\<dots> = length (pre @ [BACKSLASH, c]) + length (renderStr items) + 1"
      using Cons.IH [OF wf, of "pre @ [BACKSLASH, c]"] by simp
    finally show ?thesis unfolding t using SEscape by (simp add: renderStr_def)
  qed
qed

text \<open>
  A template literal is skipped up to and including its closing backquote; the skipping
  of the HybridLexer counts braces only, that of the ObjectLexer re-enters the template
  skipping at a backquote inside a segment.
\<close>

lemma jsx_skipInterpolation_balanced:
  "wfInterp d its \<Longrightarrow> list_all plainInterp its \<Longrightarrow> 1 \<le> d \<Longrightarrow>
     jsx_skipInterpolation (pre @ renderInterp its @ CHR ''}'' # post) (length pre) d =
       length pre + length (renderInterp its) + 1"
proof (induction its arbitrary: pre d)
  case Nil
  then have d: "d = 1" by simp
  have "jsx_skipInterpolation (pre @ CHR ''}'' # post) (length pre) 1 =
        jsx_skipInterpolation (pre @ CHR ''}'' # post) (length pre + 1) 0"
    by (subst jsx_skipInterpolation.simps) auto
  also have "\<dots> = length pre + 1"
    by (subst jsx_skipInterpolation.simps) auto
  finally show ?case using d by simp
next
  case (Cons it its)
  from Cons.prems(2) obtain c where it: "it = IChar c" by (cases it) auto
  have pl: "list_all plainInterp its" using Cons.prems(2) by simp
  let ?t = "pre @ c # renderInterp its @ CHR ''}'' # post"
  have t: "?t = (pre @ [c]) @ renderInterp its @ CHR ''}'' # post" by simp
  have d: "d > 0" using Cons.prems by simp
  have r: "jsx_skipInterpolation ?t (length pre) d = length pre + 1 + length (renderInterp its) + 1"
  proof (cases "c = CHR ''{''")
    case True
    then have b: "wfInterp (d + 1) its" using Cons.prems it by simp
    have "jsx_skipInterpolation ?t (length pre) d = jsx_skipInterpolation ?t (length pre + 1) (d + 1)"
      using True d by (subst jsx_skipInterpolation.simps) auto
    also have "\<dots> = length (pre @ [c]) + length (renderInterp its) + 1"
      unfolding t using Cons.IH [OF b pl, of "pre @ [c]"] d by simp
    finally show ?thesis by simp
  next
    case no: False
    show ?thesis
    proof (cases "c = CHR ''}''")
      case True
      then have b: "wfInterp (d - 1) its" "1 \<le> d - 1" using Cons.prems it by simp_all
      have "jsx_skipInterpolation ?t (length pre) d = jsx_skipInterpolation ?t (length pre + 1) (d - 1)"
        using True d by (subst jsx_skipInterpolation.simps) auto
      also have "\<dots> = length (pre @ [c]) + length (renderInterp its) + 1"
        unfolding t using Cons.IH [OF b(1) pl b(2), of "pre @ [c]"] by simp
      finally show ?thesis by simp
    next
      case False
      then have b: "wfInterp d its" "1 \<le> d" using Cons.prems no it by simp_all
      have "jsx_skipInterpolation ?t (length pre) d = jsx_skipInterpolation ?t (length pre + 1) d"
        using False no d by (subst jsx_skipInterpolation.simps) auto
      also have "\<dots> = length (pre @ [c]) + length (renderInterp its) + 1"
        unfolding t using Cons.IH [OF b(1) pl b(2), of "pre @ [c]"] by simp
      finally show ?thesis by simp
    qed
  qed
  show ?case using r it by simp
qed

lemma jsx_skipString_loop_template:
  "wfTpl items \<Longrightarrow> list_all plainTplItem items \<Longrightarrow>
     jsx_skipString_loop (pre @ renderTpl items @ BACKTICK # post) BACKTICK (length pre) =
       length pre + length (renderTpl items) + 1"
proof (induction items arbitrary: pre)
  case Nil
  show ?case by (subst jsx_skipString_loop.simps) auto
next
  case (Cons it items)
  have pl: "list_all plainTplItem items" using Cons.prems(2) by simp
  let ?r = "renderTpl items @ BACKTICK # post"
  show ?case
  proof (cases it)
    case (TChar c)
    then have c: "c \<noteq> BACKTICK" "c \<noteq> BACKSLASH" "c \<noteq> CHR ''$''" and wf: "wfTpl items"
      using Cons.prems by auto
    have "jsx_skipString_loop (pre @ c # ?r) BACKTICK (length pre) =
          jsx_skipString_loop (pre @ c # ?r) BACKTICK (length pre + 1)"
      using c by (subst jsx_skipString_loop.simps) auto
    also have "\<dots> = length (pre @ [c]) + length (renderTpl items) + 1"
      using Cons.IH [OF wf pl, of "pre @ [c]"] by simp
    finally show ?thesis using TChar by simp
  next
    case (TEscape c)
    then have wf: "wfTpl items" using Cons.prems by auto
    have "jsx_skipString_loop (pre @ BACKSLASH # c # ?r) BACKTICK (length pre) =
          jsx_skipString_loop (pre @ BACKSLASH # c # ?r) BACKTICK (length pre + 2)"
      by (subst jsx_skipString_loop.simps) auto
    also have "\<dots> = length (pre @ [BACKSLASH, c]) + length (renderTpl items) + 1"
      using Cons.IH [OF wf pl, of "pre @ [BACKSLASH, c]"] by simp
    finally show ?thesis using TEscape by simp
  next
    case (TInterp its)
    then have b: "wfInterp 1 its" and wf: "wfTpl items" and p: "list_all plainInterp its"
      using Cons.prems by auto
    let ?c = "renderInterp its"
    let ?t = "pre @ CHR ''$'' # CHR ''{'' # ?c @ CHR ''}'' # ?r"
    have i: "jsx_skipInterpolation ?t (length pre + 2) 1 = length pre + 2 + length ?c + 1"
      using jsx_skipInterpolation_balanced [OF b p, of "pre @ [CHR ''$'', CHR ''{'']" ?r] by simp
    have "jsx_skipString_loop ?t BACKTICK (length pre) =
          jsx_skipString_loop ?t BACKTICK (jsx_skipInterpolation ?t (length pre + 2) 1)"
      using charAt_mid1 [of pre "CHR ''$''" "CHR ''{''"]
      by (subst jsx_skipString_loop.simps) auto
    also have "\<dots> = jsx_skipString_loop ((pre @ CHR ''$'' # CHR ''{'' # ?c @ [CHR ''}'']) @ ?r) BACKTICK
        (length (pre @ CHR ''$'' # CHR ''{'' # ?c @ [CHR ''}'']))"
      unfolding i by simp
    also have "\<dots> = length (pre @ CHR ''$'' # CHR ''{'' # ?c @ [CHR ''}'']) + length (renderTpl items) + 1"
      by (rule Cons.IH [OF wf pl])
    finally show ?thesis using TInterp by simp
  qed
qed

lemma obj_skip_template:
  "wfTpl items \<Longrightarrow>
     obj_skipTemplate (pre @ renderTpl items @ BACKTICK # post) (length pre) =
       length pre + length (renderTpl items) + 1"
  "wfInterp d its \<Longrightarrow> 1 \<le> d \<Longrightarrow>
     obj_skipInterpolation (pre @ renderInterp its @ CHR ''}'' # post) (length pre) d =
       length pre + length (renderInterp its) + 1"
proof (induction items and its arbitrary: pre post and d pre post rule: renderTpl_renderInterp.induct)
  case 1
  show ?case by (subst obj_skipTemplate.simps) auto
next
  case (2 c r)
  then have c: "c \<noteq> BACKTICK" "c \<noteq> BACKSLASH" "c \<noteq> CHR ''$''" and wf: "wfTpl r" by auto
  let ?r = "renderTpl r @ BACKTICK # post"
  have "obj_skipTemplate (pre @ c # ?r) (length pre) = obj_skipTemplate (pre @ c # ?r) (length pre + 1)"
    using c by (subst obj_skipTemplate.simps) auto
  also have "\<dots> = length (pre @ [c]) + length (renderTpl r) + 1"
    using "2.IH" [OF wf, of "pre @ [c]" post] by simp
  finally show ?case by simp
next
  case (3 c r)
  then have wf: "wfTpl r" by auto
  let ?r = "renderTpl r @ BACKTICK # post"
  have "obj_skipTemplate (pre @ BACKSLASH # c # ?r) (length pre) =
        obj_skipTemplate (pre @ BACKSLASH # c # ?r) (length pre + 2)"
    by (subst obj_skipTemplate.simps) auto
  also have "\<dots> = length (pre @ [BACKSLASH, c]) + length (renderTpl r) + 1"
    using "3.IH" [OF wf, of "pre @ [BACKSLASH, c]" post] by simp
  finally show ?case by simp
next
  case (4 its r)
  then have b: "wfInterp 1 its" and wf: "wfTpl r" by auto
  let ?r = "renderTpl r @ BACKTICK # post"
  let ?c = "renderInterp its"
  let ?t = "pre @ CHR ''$'' # CHR ''{'' # ?c @ CHR ''}'' # ?r"
  have i: "obj_skipInterpolation ?t (length pre + 2) 1 = length pre + 2 + length ?c + 1"
    using "4.IH"(1) [OF b, of "pre @ [CHR ''$'', CHR ''{'']" ?r] by simp
  have "obj_skipTemplate ?t (length pre) =
        obj_skipTemplate ?t (obj_skipInterpolation ?t (length pre + 2) 1)"
    using charAt_mid1 [of pre "CHR ''$''" "CHR ''{''"]
    by (subst obj_skipTemplate.simps) auto
  also have "\<dots> = obj_skipTemplate ((pre @ CHR ''$'' # CHR ''{'' # ?c @ [CHR ''}'']) @ ?r)
      (length (pre @ CHR ''$'' # CHR ''{'' # ?c @ [CHR ''}'']))"
    unfolding i by simp
  also have "\<dots> = length (pre @ CHR ''$'' # CHR ''{'' # ?c @ [CHR ''}'']) + length (renderTpl r) + 1"
    by (rule "4.IH"(2) [OF wf])
  finally show ?case by simp
next
  case 5
  then have d: "d = 1" by simp
  have "obj_skipInterpolation (pre @ CHR ''}'' # post) (length pre) 1 =
        obj_skipInterpolation (pre @ CHR ''}'' # post) (length pre + 1) 0"
    by (subst obj_skipInterpolation.simps) auto
  also have "\<dots> = length pre + 1"
    by (subst obj_skipInterpolation.simps) auto
  finally show ?case using d by simp
next
  case (6 c r)
  let ?t = "pre @ c # renderInterp r @ CHR ''}'' # post"
  have t: "?t = (pre @ [c]) @ renderInterp r @ CHR ''}'' # post" by simp
  have d: "d > 0" using "6.prems" by simp
  have nb: "c \<noteq> BACKTICK" using "6.prems" by simp
  have "obj_skipInterpolation ?t (length pre) d = length pre + 1 + length (renderInterp r) + 1"
  proof (cases "c = CHR ''{''")
    case True
    then have b: "wfInterp (d + 1) r" using "6.prems" by simp
    have "obj_skipInterpolation ?t (length pre) d = obj_skipInterpolation ?t (length pre + 1) (d + 1)"
      using True d by (subst obj_skipInterpolation.simps) auto
    also have "\<dots> = length (pre @ [c]) + length (renderInterp r) + 1"
      unfolding t using "6.IH" [OF b, of "pre @ [c]" post] d by simp
    finally show ?thesis by simp
  next
    case no: False
    show ?thesis
    proof (cases "c = CHR ''}''")
      case True
      then have b: "wfInterp (d - 1) r" "1 \<le> d - 1" using "6.prems" by simp_all
      have "obj_skipInterpolation ?t (length pre) d = obj_skipInterpolation ?t (length pre + 1) (d - 1)"
        using True d by (subst obj_skipInterpolation.simps) auto
      also have "\<dots> = length (pre @ [c]) + length (renderInterp r) + 1"
        unfolding t using "6.IH" [OF b, of "pre @ [c]" post] by simp
      finally show ?thesis by simp
    next
      case False
      then have b: "wfInterp d r" "1 \<le> d" using "6.prems" no by simp_all
      have "obj_skipInterpolation ?t (length pre) d = obj_skipInterpolation ?t (length pre + 1) d"
        using False no nb d by (subst obj_skipInterpolation.simps) auto
      also have "\<dots> = length (pre @ [c]) + length (renderInterp r) + 1"
        unfolding t using "6.IH" [OF b, of "pre @ [c]" post] by simp
      finally show ?thesis by simp
    qed
  qed
  then show ?case by simp
next
  case (7 items r)
  then have wf: "wfTpl items" and b: "wfInterp d r" and d: "1 \<le> d" by auto
  let ?n = "BACKTICK # renderTpl items @ [BACKTICK]"
  let ?r = "renderInterp r @ CHR ''}'' # post"
  let ?t = "pre @ ?n @ ?r"
  have n: "obj_skipTemplate ?t (length pre + 1) = length pre + 1 + length (renderTpl items) + 1"
    using "7.IH"(1) [OF wf, of "pre @ [BACKTICK]" ?r] by simp
  have "obj_skipInterpolation ?t (length pre) d =
        obj_skipInterpolation ?t (obj_skipTemplate ?t (length pre + 1)) d"
    using d by (subst obj_skipInterpolation.simps) auto
  also have "\<dots> = obj_skipInterpolation ((pre @ ?n) @ ?r) (length (pre @ ?n)) d"
    unfolding n by simp
  also have "\<dots> = length (pre @ ?n) + length (renderInterp r) + 1"
    by (rule "7.IH"(2) [OF b d])
  finally show ?case by simp
qed

text \<open>Comments.\<close>

lemma skipToEndOfLine_comment:
  assumes "NEWLINE \<notin> set body"
  shows "skipToEndOfLine (pre @ CHR ''/'' # CHR ''/'' # body @ NEWLINE # post) (length pre) =
           length pre + length body + 3"
proof -
  have "takeWhile (\<lambda>c. c \<noteq> NEWLINE) ((CHR ''/'' # CHR ''/'' # body) @ NEWLINE # post) =
          (CHR ''/'' # CHR ''/'' # body) @ takeWhile (\<lambda>c. c \<noteq> NEWLINE) (NEWLINE # post)"
    using assms by (intro takeWhile_append2) auto
  then have "takeWhile (\<lambda>c. c \<noteq> NEWLINE) (CHR ''/'' # CHR ''/'' # body @ NEWLINE # post) =
          CHR ''/'' # CHR ''/'' # body"
    by simp
  then show ?thesis by (simp add: skipToEndOfLine_def skipWhile_def)
qed

lemma skipBlockComment_loop_comment:
  "noCommentEnd body \<Longrightarrow>
     skipBlockComment_loop (pre @ body @ CHR ''*'' # CHR ''/'' # post) (length pre) =
       length pre + length body + 2"
proof (induction body arbitrary: pre)
  case Nil
  show ?case
    using nth_mid [of "pre @ [CHR ''*'']" "CHR ''/''" post]
    by (subst skipBlockComment_loop.simps) (simp add: nth_append)
next
  case (Cons c cs)
  let ?t = "pre @ (c # cs) @ CHR ''*'' # CHR ''/'' # post"
  have n: "noCommentEnd cs" using Cons.prems by (cases cs) auto
  have ne: "\<not> (c = CHR ''*'' \<and> ?t ! (length pre + 1) = CHR ''/'')"
    using Cons.prems by (cases cs) (auto simp: nth_append)
  have "skipBlockComment_loop ?t (length pre) = skipBlockComment_loop ?t (length pre + 1)"
    using ne by (subst skipBlockComment_loop.simps) (auto simp: nth_append)
  also have "\<dots> = length (pre @ [c]) + length cs + 2"
    using Cons.IH [OF n, of "pre @ [c]"] by simp
  finally show ?case by simp
qed

lemma skipBlockComment_comment:
  assumes "noCommentEnd body"
  shows "skipBlockComment (pre @ CHR ''/'' # CHR ''*'' # body @ [CHR ''*'', CHR ''/''] @ post) (length pre) =
           length pre + length body + 4"
  using skipBlockComment_loop_comment [OF assms, of "pre @ [CHR ''/'', CHR ''*'']" post]
  by (simp add: skipBlockComment_def)



text \<open>The end of a tag is searched past its quoted attribute values.\<close>

lemma findTagEnd_loop_in_string:
  "q \<notin> set body \<Longrightarrow>
     findTagEnd_loop (pre @ body @ rest) c (length pre) True (Some q) =
     findTagEnd_loop (pre @ body @ rest) c (length pre + length body) True (Some q)"
proof (induction body arbitrary: pre)
  case Nil
  show ?case by simp
next
  case (Cons x xs)
  have x: "x \<noteq> q" and xs: "q \<notin> set xs" using Cons.prems by auto
  have "findTagEnd_loop (pre @ (x # xs) @ rest) c (length pre) True (Some q) =
        findTagEnd_loop (pre @ (x # xs) @ rest) c (length pre + 1) True (Some q)"
    using x by (subst findTagEnd_loop.simps) auto
  also have "\<dots> = findTagEnd_loop ((pre @ [x]) @ xs @ rest) c (length (pre @ [x])) True (Some q)"
    by simp
  also have "\<dots> = findTagEnd_loop ((pre @ [x]) @ xs @ rest) c (length (pre @ [x]) + length xs) True (Some q)"
    by (rule Cons.IH [OF xs])
  finally show ?case by simp
qed

lemma findTagEnd_loop_close_quote:
  assumes "body = [] \<or> last body \<noteq> BACKSLASH" and "q \<noteq> BACKSLASH"
  shows "findTagEnd_loop (pre @ q # body @ q # rest) c (length pre + 1 + length body) True (Some q) =
         findTagEnd_loop (pre @ q # body @ q # rest) c (length pre + 1 + length body + 1) False (Some q)"
proof -
  let ?t = "pre @ q # body @ q # rest"
  have t: "?t = (pre @ q # body) @ q # rest" by simp
  have i: "?t ! (length pre + 1 + length body) = q"
    using nth_mid [of "pre @ q # body" q rest] by simp
  have p: "charAtI ?t (int (length pre + 1 + length body) - 1) \<noteq> Some BACKSLASH"
  proof (cases "body = []")
    case True
    have "charAtI (pre @ q # q # rest) (int (length pre)) = Some q"
      by (rule charAtI_append_mid)
    then show ?thesis using True assms(2) by simp
  next
    case False
    then obtain bs b where b: "body = bs @ [b]" by (cases body rule: rev_cases) auto
    then have nb: "b \<noteq> BACKSLASH" using assms(1) by simp
    have "charAtI ((pre @ q # bs) @ b # q # rest) (int (length (pre @ q # bs))) = Some b"
      by (rule charAtI_append_mid)
    then show ?thesis using nb unfolding b by simp
  qed
  show ?thesis using i p by (subst findTagEnd_loop.simps) auto
qed

lemma findTagEnd_loop_attrs:
  "list_all wfAttrItem items \<Longrightarrow>
     findTagEnd_loop (pre @ renderAttrs items @ CHR ''>'' # post) c (length pre) False sc =
       Some (length pre + length (renderAttrs items) + 1,
             \<not> c \<and> charAtI (pre @ renderAttrs items @ CHR ''>'' # post)
                      (int (length pre + length (renderAttrs items)) - 1) = Some CHR ''/'')"
proof (induction items arbitrary: pre sc)
  case Nil
  show ?case by (subst findTagEnd_loop.simps) (auto simp: renderAttrs_def)
next
  case (Cons it items)
  have wf: "list_all wfAttrItem items" using Cons.prems by simp
  let ?r = "renderAttrs items @ CHR ''>'' # post"
  show ?case
  proof (cases it)
    case (AChar x)
    then have x: "x \<noteq> DQUOTE" "x \<noteq> SQUOTE" "x \<noteq> CHR ''<''" "x \<noteq> CHR ''>''"
      using Cons.prems by auto
    have t: "pre @ renderAttrs (it # items) @ CHR ''>'' # post = (pre @ [x]) @ ?r"
      and l: "length (renderAttrs (it # items)) = 1 + length (renderAttrs items)"
      using AChar by (simp_all add: renderAttrs_def)
    have "findTagEnd_loop ((pre @ [x]) @ ?r) c (length pre) False sc =
          findTagEnd_loop ((pre @ [x]) @ ?r) c (length (pre @ [x])) False sc"
      using x by (subst findTagEnd_loop.simps) (auto simp: nth_append)
    also note Cons.IH [OF wf, of "pre @ [x]" sc]
    finally show ?thesis unfolding t l by simp
  next
    case (AQuoted q body)
    then have q: "q = DQUOTE \<or> q = SQUOTE" and nb: "q \<notin> set body"
      and lb: "body = [] \<or> last body \<noteq> BACKSLASH"
      using Cons.prems by auto
    have qb: "q \<noteq> BACKSLASH" using q by auto
    let ?p = "pre @ q # body @ [q]"
    have t: "pre @ renderAttrs (it # items) @ CHR ''>'' # post = ?p @ ?r"
      and l: "length (renderAttrs (it # items)) = length body + 2 + length (renderAttrs items)"
      using AQuoted by (simp_all add: renderAttrs_def)
    have t1: "?p @ ?r = (pre @ [q]) @ body @ (q # ?r)" and t2: "?p @ ?r = pre @ q # body @ q # ?r"
      by simp_all
    have "findTagEnd_loop (?p @ ?r) c (length pre) False sc =
          findTagEnd_loop (?p @ ?r) c (length pre + 1) True (Some q)"
      using q by (subst findTagEnd_loop.simps) (auto simp: nth_append)
    also have "\<dots> = findTagEnd_loop (?p @ ?r) c (length pre + 1 + length body) True (Some q)"
      unfolding t1 using findTagEnd_loop_in_string [OF nb, of "pre @ [q]" "q # ?r" c] by simp
    also have "\<dots> = findTagEnd_loop (?p @ ?r) c (length pre + 1 + length body + 1) False (Some q)"
      unfolding t2 by (rule findTagEnd_loop_close_quote [OF lb qb])
    also have "\<dots> = findTagEnd_loop (?p @ ?r) c (length ?p) False (Some q)" by simp
    also note Cons.IH [OF wf, of ?p "Some q"]
    finally show ?thesis unfolding t l by (simp add: add.assoc)
  qed
qed

lemma findTagEnd_attrs:
  "list_all wfAttrItem items \<Longrightarrow>
     findTagEnd (pre @ renderAttrs items @ CHR ''>'' # post) (length pre) c =
       Some (length pre + length (renderAttrs items) + 1,
             \<not> c \<and> charAtI (pre @ renderAttrs items @ CHR ''>'' # post)
                      (int (length pre + length (renderAttrs items)) - 1) = Some CHR ''/'')"
  unfolding findTagEnd_def by (rule findTagEnd_loop_attrs)

text \<open>One iteration of either scan at the first character of a literal or comment.\<close>

lemma obj_skip_opaque:
  assumes "wfOpaque seg"
  shows "(case seg of
            Quoted q items \<Rightarrow> obj_skipString (pre @ renderOpaque seg @ post) (length pre) q
          | Template items \<Rightarrow> obj_skipString (pre @ renderOpaque seg @ post) (length pre) BACKTICK
          | LineComment body \<Rightarrow> skipToEndOfLine (pre @ renderOpaque seg @ post) (length pre)
          | BlockComment body \<Rightarrow> skipBlockComment (pre @ renderOpaque seg @ post) (length pre)) =
         length pre + length (renderOpaque seg)"
proof (cases seg)
  case (Quoted q items)
  then have q: "q = DQUOTE \<or> q = SQUOTE" and wf: "list_all (wfStrItem q) items" using assms by auto
  have "q \<noteq> BACKTICK" using q by auto
  then show ?thesis
    using obj_skipRegular_quoted [OF q wf, of "pre @ [q]" post] Quoted
    by (simp add: obj_skipString_def)
next
  case (Template items)
  then have wf: "wfTpl items" using assms by simp
  show ?thesis
    using obj_skip_template(1) [OF wf, of "pre @ [BACKTICK]" post] Template
    by (simp add: obj_skipString_def)
next
  case (LineComment body)
  then have "NEWLINE \<notin> set body" using assms by simp
  from skipToEndOfLine_comment [OF this, of pre post] show ?thesis using LineComment by simp
next
  case (BlockComment body)
  then have "noCommentEnd body" using assms by simp
  from skipBlockComment_comment [OF this, of pre post] show ?thesis using BlockComment by simp
qed

lemma jsx_skip_opaque:
  assumes "wfOpaque seg" and "unnested seg"
  shows "(case seg of
            Quoted q items \<Rightarrow> jsx_skipString (pre @ renderOpaque seg @ post) (length pre) q
          | Template items \<Rightarrow> jsx_skipString (pre @ renderOpaque seg @ post) (length pre) BACKTICK
          | LineComment body \<Rightarrow> skipToEndOfLine (pre @ renderOpaque seg @ post) (length pre)
          | BlockComment body \<Rightarrow> skipBlockComment (pre @ renderOpaque seg @ post) (length pre)) =
         length pre + length (renderOpaque seg)"
proof (cases seg)
  case (Quoted q items)
  then have q: "q = DQUOTE \<or> q = SQUOTE" and wf: "list_all (wfStrItem q) items" using assms by auto
  show ?thesis
    using jsx_skipString_loop_quoted [OF q wf, of "pre @ [q]" post] Quoted
    by (simp add: jsx_skipString_def)
next
  case (Template items)
  then have wf: "wfTpl items" and pl: "list_all plainTplItem items" using assms by simp_all
  show ?thesis
    using jsx_skipString_loop_template [OF wf pl, of "pre @ [BACKTICK]" post] Template
    by (simp add: jsx_skipString_def)
next
  case (LineComment body)
  then have "NEWLINE \<notin> set body" using assms by simp
  from skipToEndOfLine_comment [OF this, of pre post] show ?thesis using LineComment by simp
next
  case (BlockComment body)
  then have "noCommentEnd body" using assms by simp
  from skipBlockComment_comment [OF this, of pre post] show ?thesis using BlockComment by simp
qed

lemma obj_step_opaque:
  assumes "wfOpaque seg"
  shows "obj_step cfg (pre @ renderOpaque seg @ post) (st\<lparr>o_i := length pre\<rparr>) =
           st\<lparr>o_i := length pre + length (renderOpaque seg)\<rparr>"
proof (cases seg)
  case (Quoted q items)
  then have q: "q = DQUOTE \<or> q = SQUOTE" using assms by auto
  then have "q \<noteq> CHR ''/''" by auto
  then show ?thesis
    using obj_skip_opaque [OF assms, of pre post] q Quoted
    by (auto simp: obj_step_def)
next
  case (Template items)
  then show ?thesis
    using obj_skip_opaque [OF assms, of pre post]
    by (auto simp: obj_step_def)
next
  case (LineComment body)
  then show ?thesis
    using obj_skip_opaque [OF assms, of pre post] nth_mid [of "pre @ [CHR ''/'']" "CHR ''/''"]
    by (auto simp: obj_step_def)
next
  case (BlockComment body)
  then show ?thesis
    using obj_skip_opaque [OF assms, of pre post] nth_mid [of "pre @ [CHR ''/'']" "CHR ''*''"]
    by (auto simp: obj_step_def)
qed

lemma tokenize_step_opaque:
  assumes "wfOpaque seg" and "unnested seg"
  shows "tokenize_step cfg (pre @ renderOpaque seg @ post) (st\<lparr>js_i := length pre\<rparr>) =
           st\<lparr>js_i := length pre + length (renderOpaque seg)\<rparr>"
proof (cases seg)
  case (Quoted q items)
  then have q: "q = DQUOTE \<or> q = SQUOTE" using assms by auto
  then have "q \<noteq> CHR ''/''" by auto
  then show ?thesis
    using jsx_skip_opaque [OF assms, of pre post] q Quoted
    by (auto simp: tokenize_step_def isInsideJsxTag_def)
next
  case (Template items)
  then show ?thesis
    using jsx_skip_opaque [OF assms, of pre post]
    by (auto simp: tokenize_step_def isInsideJsxTag_def)
next
  case (LineComment body)
  then show ?thesis
    using jsx_skip_opaque [OF assms, of pre post] nth_mid [of "pre @ [CHR ''/'']" "CHR ''/''"]
    by (auto simp: tokenize_step_def)
next
  case (BlockComment body)
  then show ?thesis
    using jsx_skip_opaque [OF assms, of pre post] nth_mid [of "pre @ [CHR ''/'']" "CHR ''*''"]
    by (auto simp: tokenize_step_def)
qed

lemma renderOpaque_nonempty: "renderOpaque seg \<noteq> []"
  by (cases seg) auto

section \<open>Claims about the HtmlParser\<close>

text \<open>
  C1 (balanced markup depth law: the law fails on a tag inside a quoted attribute value).
  \<open>findTagEnd\<close> passes over quoted attribute values when it looks for the end of a tag,
  but the pattern of \<open>findAllTags\<close> goes on right after the tag name, inside the
  attributes. In \<open><a title="<a>"><c></c></a>\<close>, a well-formed nesting of the non-void
  tags \<open>a\<close> and \<open>c\<close>, the \<open><a>\<close> inside the quoted value is taken for an opening tag,
  emitted at depth 1 and pushed: \<open>c\<close>, at nesting level 1, is opened and closed at
  depth 2, and the closing \<open></a>\<close> is emitted at depth 1, while its opening tag was
  emitted at depth 0. With the value \<open>x\<close> in place of \<open><a>\<close> the same nesting gets the
  depths of the law, \<open>a\<close> at 0 and \<open>c\<close> at 1, and \<open><div><span></span></div>\<close> yields the
  twelve spans of scenario 1.
\<close>

theorem depth_law_fails_on_quoted_tag:
  \<open>parse ''<a title="<a>"><c></c></a>'' =
     [createColoredRange 0 1 0, createColoredRange 1 2 0, createColoredRange 14 15 0,
      createColoredRange 10 11 1, createColoredRange 11 12 1, createColoredRange 12 13 1,
      createColoredRange 15 16 2, createColoredRange 16 17 2, createColoredRange 17 18 2,
      createColoredRange 18 20 2, createColoredRange 20 21 2, createColoredRange 21 22 2,
      createColoredRange 22 24 1, createColoredRange 24 25 1, createColoredRange 25 26 1] \<and>
   parse ''<a title="x"><c></c></a>'' =
     [createColoredRange 0 1 0, createColoredRange 1 2 0, createColoredRange 12 13 0,
      createColoredRange 13 14 1, createColoredRange 14 15 1, createColoredRange 15 16 1,
      createColoredRange 16 18 1, createColoredRange 18 19 1, createColoredRange 19 20 1,
      createColoredRange 20 22 0, createColoredRange 22 23 0, createColoredRange 23 24 0] \<and>
   parse ''<div><span></span></div>'' =
     [createColoredRange 0 1 0, createColoredRange 1 4 0, createColoredRange 4 5 0,
      createColoredRange 5 6 1, createColoredRange 6 10 1, createColoredRange 10 11 1,
      createColoredRange 11 13 1, createColoredRange 13 17 1, createColoredRange 17 18 1,
      createColoredRange 18 20 0, createColoredRange 20 23 0, createColoredRange 23 24 0]\<close>
  by code_simp

text \<open>
  C4 (closing tags). For a closing tag processed by \<open>parse\<close>: if its name matches, up to
  case, some frame of the tag stack, the stack is truncated to the length \<open>i\<close> of the
  topmost such frame (the match and everything above it are popped) and the tag's three
  sub-spans are emitted at the stack length after truncation; if no frame matches, the
  stack is unchanged and the tag is emitted at the unchanged depth. In particular
  \<open></div>\<close> on an empty stack is emitted at depth 0 and leaves the stack empty.
\<close>

theorem closing_tag_search_and_truncate:
  assumes "tagType tag = CloseTag"
  shows "((\<exists>i<length stack. toLowerCase (stack ! i) = toLowerCase (tagName tag)) \<longrightarrow>
          (\<exists>i<length stack. toLowerCase (stack ! i) = toLowerCase (tagName tag) \<and>
             (\<forall>j. i < j \<and> j < length stack \<longrightarrow> toLowerCase (stack ! j) \<noteq> toLowerCase (tagName tag)) \<and>
             parse_step (ranges, stack) tag =
               (ranges @ createTagRanges tag (int (length (take i stack))), take i stack))) \<and>
         ((\<forall>i<length stack. toLowerCase (stack ! i) \<noteq> toLowerCase (tagName tag)) \<longrightarrow>
          parse_step (ranges, stack) tag = (ranges @ createTagRanges tag (int (length stack)), stack)) \<and>
         (\<forall>r\<in>set (createTagRanges tag d). depth r = d) \<and>
         parse_tags (findAllTags ''</div>'') =
           ([createColoredRange 0 2 0, createColoredRange 2 5 0, createColoredRange 5 6 0], [])"
  using parse_step_close_found [OF assms] parse_step_close_not_found [OF assms]
    createTagRanges_depth unmatched_close_scenario by blast

theorem closing_tag_search_and_truncate_witness:
  "parse_step ([], [''div'', ''Span'', ''b'']) (mkTag CloseTag ''SPAN'' 20 27 22 26) =
     ([createColoredRange 20 22 1, createColoredRange 22 26 1, createColoredRange 26 27 1], [''div''])
   \<and> parse_step ([], [''div'', ''b'']) (mkTag CloseTag ''span'' 20 27 22 26) =
     ([createColoredRange 20 22 2, createColoredRange 22 26 2, createColoredRange 26 27 2], [''div'', ''b''])"
proof -
  let ?tag = "mkTag CloseTag ''SPAN'' 20 27 22 26"
  let ?stack = "[''div'', ''Span'', ''b'']"
  let ?tag2 = "mkTag CloseTag ''span'' 20 27 22 26"
  let ?stack2 = "[''div'', ''b'']"
  have low: "toLowerCase ''SPAN'' = ''span''" "toLowerCase ''Span'' = ''span''" "toLowerCase ''b'' = ''b''"
    "toLowerCase ''div'' = ''div''" "toLowerCase ''span'' = ''span''"
    by code_simp+
  have h: "tagType ?tag = CloseTag" "tagType ?tag2 = CloseTag" by (simp_all add: mkTag_def)
  have n: "tagName ?tag = ''SPAN''" "tagName ?tag2 = ''span''" by (simp_all add: mkTag_def)
  have m: "\<exists>i<length ?stack. toLowerCase (?stack ! i) = toLowerCase (tagName ?tag)"
    by (rule exI [of _ 1]) (simp add: low n)
  have nm: "\<forall>i<length ?stack2. toLowerCase (?stack2 ! i) \<noteq> toLowerCase (tagName ?tag2)"
    by (simp add: low n All_less_Suc2 nth_Cons' numeral_2_eq_2)
  from closing_tag_search_and_truncate [OF h(1), of ?stack "[]" 0] m
  obtain i where i: "i < length ?stack" "toLowerCase (?stack ! i) = toLowerCase (tagName ?tag)"
    "parse_step ([], ?stack) ?tag = ([] @ createTagRanges ?tag (int (length (take i ?stack))), take i ?stack)"
    by blast
  have "i = 1"
    using i(1,2) by (cases i; cases "i - 1"; cases "i - 2") (auto simp: low n)
  with i(3) have a: "parse_step ([], ?stack) ?tag =
     ([createColoredRange 20 22 1, createColoredRange 22 26 1, createColoredRange 26 27 1], [''div''])"
    by (simp add: createTagRanges_def mkTag_def)
  from closing_tag_search_and_truncate [OF h(2), of ?stack2 "[]" 0] nm
  have "parse_step ([], ?stack2) ?tag2 = ([] @ createTagRanges ?tag2 (int (length ?stack2)), ?stack2)"
    by blast
  then have b: "parse_step ([], ?stack2) ?tag2 =
     ([createColoredRange 20 22 2, createColoredRange 22 26 2, createColoredRange 26 27 2], [''div'', ''b''])"
    by (simp add: createTagRanges_def mkTag_def)
  from a b show ?thesis by simp
qed

text \<open>
  C7 (void and self-closing tags: the insertion fails on a tag inside a quoted attribute
  value). A void element is emitted at the current stack length and pushes no frame, but
  the pattern of \<open>findAllTags\<close> goes on right after its name, inside its attributes. With
  the void element \<open><img alt="<b>">\<close> inserted before \<open><p>t</p>\<close>, the \<open><b>\<close> inside
  the quoted value is taken for an opening tag, emitted at depth 0 and pushed, and
  \<open>p\<close> is opened and closed at depth 1; without the insertion, and with
  \<open><img src="x">\<close> inserted, \<open>p\<close> is opened and closed at depth 0.
\<close>

theorem void_insertion_fails_on_quoted_tag:
  \<open>parse ''<img alt="<b>"><p>t</p>'' =
     [createColoredRange 0 1 0, createColoredRange 1 4 0, createColoredRange 14 15 0,
      createColoredRange 10 11 0, createColoredRange 11 12 0, createColoredRange 12 13 0,
      createColoredRange 15 16 1, createColoredRange 16 17 1, createColoredRange 17 18 1,
      createColoredRange 19 21 1, createColoredRange 21 22 1, createColoredRange 22 23 1] \<and>
   parse ''<p>t</p>'' =
     [createColoredRange 0 1 0, createColoredRange 1 2 0, createColoredRange 2 3 0,
      createColoredRange 4 6 0, createColoredRange 6 7 0, createColoredRange 7 8 0] \<and>
   parse ''<img src="x"><p>t</p>'' =
     [createColoredRange 0 1 0, createColoredRange 1 4 0, createColoredRange 12 13 0,
      createColoredRange 13 14 0, createColoredRange 14 15 0, createColoredRange 15 16 0,
      createColoredRange 17 19 0, createColoredRange 19 20 0, createColoredRange 20 21 0]\<close>
  by code_simp

text \<open>
  C8 (unterminated tags). A tag candidate (a match of the tag start pattern at \<open>p\<close>) for
  which \<open>findTagEnd\<close> reaches no terminating \<open>>\<close> is discarded: no tag of the list starts
  at it, no emitted span starts at its \<open><\<close> or at its name, and the scan that met it
  resumes after the matched name with the same tag list as if the candidate had not been
  met, so that the replay, which sees the tag list only, gives every other tag the same
  depth. \<open>findTagEnd\<close> reaches no \<open>>\<close> when none is left in the text, and when a \<open><\<close>
  comes first outside quotes.
\<close>

theorem unterminated_tag_candidate_discarded:
  assumes "matchTagStartAt t p = Some (isClosing, name)"
    and "findTagEnd t (candidateNameEnd p isClosing name) isClosing = None"
  shows "(\<forall>tag\<in>set (findAllTags t).
            bracketStart tag \<noteq> p \<and> nameStart tag \<noteq> (if isClosing then p + 2 else p + 1)) \<and>
         (\<forall>r\<in>set (parse t).
            startOffset r \<noteq> int p \<and> startOffset r \<noteq> int (if isClosing then p + 2 else p + 1)) \<and>
         (\<forall>lastIndex. tagStartRegex_exec t lastIndex = Some (p, isClosing, name) \<longrightarrow>
            findAllTags_loop t lastIndex = findAllTags_loop t (candidateNameEnd p isClosing name)) \<and>
         (\<forall>u s c. CHR ''>'' \<notin> set (drop s u) \<longrightarrow> findTagEnd u s c = None) \<and>
         (\<forall>pre seg rest c. DQUOTE \<notin> set seg \<and> SQUOTE \<notin> set seg \<and> CHR ''>'' \<notin> set seg \<longrightarrow>
            findTagEnd (pre @ seg @ CHR ''<'' # rest) (length pre) c = None)"
proof -
  have 1: "\<forall>tag\<in>set (findAllTags t).
            bracketStart tag \<noteq> p \<and> nameStart tag \<noteq> (if isClosing then p + 2 else p + 1)"
    unfolding findAllTags_def using failed_candidate_no_tag [OF assms] by blast
  have 2: "\<forall>r\<in>set (parse t).
            startOffset r \<noteq> int p \<and> startOffset r \<noteq> int (if isClosing then p + 2 else p + 1)"
    using failed_candidate_no_span [OF assms] by blast
  have 3: "\<forall>lastIndex. tagStartRegex_exec t lastIndex = Some (p, isClosing, name) \<longrightarrow>
            findAllTags_loop t lastIndex = findAllTags_loop t (candidateNameEnd p isClosing name)"
    using failed_candidate_resume [OF _ assms(2)] by blast
  have 4: "\<forall>u s c. CHR ''>'' \<notin> set (drop s u) \<longrightarrow> findTagEnd u s c = None"
    using findTagEnd_no_gt by blast
  have 5: "\<forall>pre seg rest c. DQUOTE \<notin> set seg \<and> SQUOTE \<notin> set seg \<and> CHR ''>'' \<notin> set seg \<longrightarrow>
            findTagEnd (pre @ seg @ CHR ''<'' # rest) (length pre) c = None"
    unfolding findTagEnd_def using findTagEnd_loop_interrupted by blast
  from 1 2 3 4 5 show ?thesis by blast
qed

theorem unterminated_tag_candidate_discarded_witness:
  "matchTagStartAt ''<p><a <b></p>'' 3 = Some (False, ''a'') \<and>
   findTagEnd ''<p><a <b></p>'' (candidateNameEnd 3 False ''a'') False = None \<and>
   tagStartRegex_exec ''<p><a <b></p>'' 2 = Some (3, False, ''a'') \<and>
   findAllTags_loop ''<p><a <b></p>'' 2 = findAllTags_loop ''<p><a <b></p>'' 5 \<and>
   parse ''<p><a <b></p>'' =
     [createColoredRange 0 1 0, createColoredRange 1 2 0, createColoredRange 2 3 0,
      createColoredRange 6 7 1, createColoredRange 7 8 1, createColoredRange 8 9 1,
      createColoredRange 9 11 0, createColoredRange 11 12 0, createColoredRange 12 13 0]"
proof -
  let ?t = "''<p><a <b></p>''"
  have m: "matchTagStartAt ?t 3 = Some (False, ''a'')" by code_simp
  have f: "findTagEnd ?t (candidateNameEnd 3 False ''a'') False = None" by code_simp
  have e: "tagStartRegex_exec ?t 2 = Some (3, False, ''a'')" by code_simp
  have n: "candidateNameEnd 3 False ''a'' = 5" by code_simp
  have p: "parse ?t =
     [createColoredRange 0 1 0, createColoredRange 1 2 0, createColoredRange 2 3 0,
      createColoredRange 6 7 1, createColoredRange 7 8 1, createColoredRange 8 9 1,
      createColoredRange 9 11 0, createColoredRange 11 12 0, createColoredRange 12 13 0]"
    by code_simp
  from unterminated_tag_candidate_discarded [OF m f]
  have "tagStartRegex_exec ?t 2 = Some (3, False, ''a'') \<longrightarrow>
           findAllTags_loop ?t 2 = findAllTags_loop ?t (candidateNameEnd 3 False ''a'')"
    by blast
  with m f e n p show ?thesis by simp
qed

section \<open>Claims about the JsxParser\<close>





lemma tokenize_step_in_expression:
  assumes "js_i st < length t" and "t ! js_i st = CHR ''}''" and "js_inJsxExpression st"
  shows "tokenize_step cfg t st = tokenize_expression cfg t st"
  using assms by (simp add: tokenize_step_def Let_def isInsideJsxTag_def)

text \<open>
  C5 (closing braces in a JSX expression: a block's \<open>}\<close> closes the pending object
  frame). In the expression state \<open>tokenize\<close> pushes a frame for a \<open>{\<close> it classifies
  as an object literal and nothing for any other \<open>{\<close>; at a \<open>}\<close> that does not bring
  the balance counter to 0 it pops the object stack whenever that stack is not empty
  (the branch the source comments as closing an object brace). In
  \<open><a>{f({b: function(){}})}</a>\<close> the \<open>{\<close> at 6 is an object literal and the \<open>{\<close> at 20
  a block. The block's \<open>}\<close> at 21, which closes neither the expression nor the object
  literal, pops the object frame, decrements the depth and is emitted at depth 1; the
  object literal's own \<open>}\<close> at 22 then finds the object stack empty and emits nothing.
  On \<open>f({b: function(){}})\<close> the ObjectParser, which keeps a frame for every brace, emits
  the object literal's braces at 2 and 18; the JsxParser emits 2 and the block's \<open>}\<close>
  at 17.
\<close>

theorem block_brace_closes_object_frame:
  \<open>map (\<lambda>token. (tok_type token, tok_start token, tok_end token, tok_depth token))
     (tokenize defaultConfig ''<a>{f({b: function(){}})}</a>'') =
     [(JsxOpenStart, 0, 1, 0), (JsxOpenStart, 1, 2, 0), (JsxOpenEnd, 2, 3, 0),
      (ExpressionStart, 3, 4, 0), (ObjectBrace, 6, 7, 1), (PropertyKey, 7, 8, 1),
      (ObjectBrace, 21, 22, 1), (ExpressionEnd, 24, 25, 0),
      (JsxClose, 25, 27, 0), (JsxClose, 27, 28, 0), (JsxClose, 28, 29, 0)] \<and>
   jsx_isObjectContext ''<a>{f({b: function(){}})}</a>'' 6 \<and>
   \<not> jsx_isObjectContext ''<a>{f({b: function(){}})}</a>'' 20 \<and>
   ''<a>{f({b: function(){}})}</a>'' ! 20 = CHR ''{'' \<and>
   ''<a>{f({b: function(){}})}</a>'' ! 21 = CHR ''}'' \<and>
   ''<a>{f({b: function(){}})}</a>'' ! 22 = CHR ''}'' \<and>
   obj_parse defaultConfig ''f({b: function(){}})'' =
     [createColoredRange 2 3 0, createColoredRange 18 19 0, createColoredRange 3 4 0] \<and>
   jsx_parse defaultConfig ''f({b: function(){}})'' =
     [createColoredRange 2 3 0, createColoredRange 3 4 0, createColoredRange 17 18 0]\<close>
  by code_simp

section \<open>Claims about the ObjectParser\<close>

text \<open>
  C3, as the claim states it, fails: a \<open>{\<close> whose nearest preceding non-blank character
  is \<open>{\<close> or \<open>}\<close> is not classified as an object literal, since neither character is
  in \<open>OBJECT_CONTEXT_CHARS\<close>. In \<open>x = {{a: 1}}\<close> only the outer braces are emitted, and in
  \<open>x = {}{a: 1}\<close> only the first pair.
\<close>

theorem object_context_chars_counterexample:
  "\<not> obj_isObjectContext ''x = {{a: 1}}'' 5 \<and>
   obj_parse defaultConfig ''x = {{a: 1}}'' = [createColoredRange 4 5 0, createColoredRange 11 12 0] \<and>
   \<not> obj_isObjectContext ''x = {}{a: 1}'' 6 \<and>
   obj_parse defaultConfig ''x = {}{a: 1}'' = [createColoredRange 4 5 0, createColoredRange 5 6 0]"
  by code_simp

text \<open>
  C3 (amended). For a \<open>{\<close> scanned by \<open>findObjectBracesAndKeys\<close> outside strings, comments
  and regex literals, the scan pushes its classification with the count of open object
  frames and emits a brace at that depth exactly when it is classified as an object
  literal. A \<open>{\<close> whose nearest preceding non-blank character is one of \<open>= : ( [ , ?\<close> is
  an object literal; one whose nearest preceding non-blank character is \<open>{\<close> or \<open>}\<close> is
  a block; one that directly follows a control or declaration keyword is a block. In
  particular \<open>if (x) { y(); }\<close> gives no span.
\<close>

theorem object_brace_classification:
  assumes "list_all isSpace ws"
  shows "(c \<in> set OBJECT_CONTEXT_CHARS \<longrightarrow>
            obj_isObjectContext (pre @ c # ws @ CHR ''{'' # post) (length pre + 1 + length ws)) \<and>
         (c = CHR ''{'' \<or> c = CHR ''}'' \<longrightarrow>
            \<not> obj_isObjectContext (pre @ c # ws @ CHR ''{'' # post) (length pre + 1 + length ws)) \<and>
         (kw \<in> set BLOCK_KEYWORDS \<and> (pre = [] \<or> \<not> isLetter (last pre)) \<longrightarrow>
            \<not> obj_isObjectContext (pre @ kw @ ws @ CHR ''{'' # post)
                (length pre + length kw + length ws)) \<and>
         (o_i st < length t \<and> t ! o_i st = CHR ''{'' \<longrightarrow>
            obj_step cfg t st =
              st\<lparr>o_braceStack := o_braceStack st @
                    [(obj_isObjectContext t (o_i st), objectFrames (o_braceStack st))],
                 o_braces :=
                   (if obj_isObjectContext t (o_i st)
                    then o_braces st @
                      [\<lparr>bm_position = o_i st, bm_isObject = True,
                        bm_depth = objectFrames (o_braceStack st)\<rparr>]
                    else o_braces st),
                 o_i := o_i st + 1\<rparr>) \<and>
         obj_parse defaultConfig ''if (x) { y(); }'' = []"
proof (intro conjI impI)
  assume "c \<in> set OBJECT_CONTEXT_CHARS"
  then show "obj_isObjectContext (pre @ c # ws @ CHR ''{'' # post) (length pre + 1 + length ws)"
    by (rule object_context_char [OF _ assms])
next
  assume "c = CHR ''{'' \<or> c = CHR ''}''"
  then show "\<not> obj_isObjectContext (pre @ c # ws @ CHR ''{'' # post) (length pre + 1 + length ws)"
    by (rule brace_context [OF _ assms])
next
  assume "kw \<in> set BLOCK_KEYWORDS \<and> (pre = [] \<or> \<not> isLetter (last pre))"
  then show "\<not> obj_isObjectContext (pre @ kw @ ws @ CHR ''{'' # post)
                (length pre + length kw + length ws)"
    using block_keyword_context [OF _ assms, of kw pre post] by simp
next
  assume "o_i st < length t \<and> t ! o_i st = CHR ''{''"
  then show "obj_step cfg t st =
              st\<lparr>o_braceStack := o_braceStack st @
                    [(obj_isObjectContext t (o_i st), objectFrames (o_braceStack st))],
                 o_braces :=
                   (if obj_isObjectContext t (o_i st)
                    then o_braces st @
                      [\<lparr>bm_position = o_i st, bm_isObject = True,
                        bm_depth = objectFrames (o_braceStack st)\<rparr>]
                    else o_braces st),
                 o_i := o_i st + 1\<rparr>"
    using obj_step_open_brace [of st t cfg] by simp
next
  show "obj_parse defaultConfig ''if (x) { y(); }'' = []" by (rule obj_scenario4)
qed

theorem object_brace_classification_witness:
  "obj_isObjectContext ''x =  {a: 1}'' 5 \<and>
   \<not> obj_isObjectContext ''} else  { y() }'' 8 \<and>
   obj_step defaultConfig ''x =  {a: 1}''
     \<lparr>o_i = 5, o_braces = [], o_propertyKeys = [], o_braceStack = [(False, 0), (True, 0)]\<rparr> =
     \<lparr>o_i = 6, o_braces = [\<lparr>bm_position = 5, bm_isObject = True, bm_depth = 1\<rparr>],
      o_propertyKeys = [], o_braceStack = [(False, 0), (True, 0), (True, 1)]\<rparr>"
proof -
  let ?st = "\<lparr>o_i = 5, o_braces = [], o_propertyKeys = [], o_braceStack = [(False, 0), (True, 0)]\<rparr>"
  have ws: "list_all isSpace ''  ''" by (simp add: isSpace_def)
  have c: "CHR ''='' \<in> set OBJECT_CONTEXT_CHARS" by (simp add: OBJECT_CONTEXT_CHARS_def)
  have k: "''else'' \<in> set BLOCK_KEYWORDS" by (simp add: BLOCK_KEYWORDS_def)
  have l: "\<not> isLetter (last ''} '')" by (simp add: isLetter_def)
  have n: "length ''x '' + 1 + length ''  '' = 5" "length ''} '' + length ''else'' + length ''  '' = 8"
    by simp_all
  note th = object_brace_classification [OF ws, of "CHR ''=''" "''x ''" "''a: 1}''" "''else''"
      ?st "''x =  {a: 1}''" defaultConfig]
  note th2 = object_brace_classification [OF ws, of "CHR ''=''" "''} ''" "'' y() }''" "''else''"
      ?st "''x =  {a: 1}''" defaultConfig]
  from th c have 1: "obj_isObjectContext (''x '' @ CHR ''='' # ''  '' @ CHR ''{'' # ''a: 1}'')
      (length ''x '' + 1 + length ''  '')" by blast
  from th2 k l have 2: "\<not> obj_isObjectContext (''} '' @ ''else'' @ ''  '' @ CHR ''{'' # '' y() }'')
      (length ''} '' + length ''else'' + length ''  '')" by blast
  have a1: "obj_isObjectContext ''x =  {a: 1}'' 5" using 1 unfolding n by simp
  have a2: "\<not> obj_isObjectContext ''} else  { y() }'' 8" using 2 unfolding n by simp
  have h: "o_i ?st < length ''x =  {a: 1}'' \<and> ''x =  {a: 1}'' ! o_i ?st = CHR ''{''" by simp
  from th h have "obj_step defaultConfig ''x =  {a: 1}'' ?st =
      ?st\<lparr>o_braceStack := o_braceStack ?st @
              [(obj_isObjectContext ''x =  {a: 1}'' (o_i ?st), objectFrames (o_braceStack ?st))],
           o_braces :=
             (if obj_isObjectContext ''x =  {a: 1}'' (o_i ?st)
              then o_braces ?st @
                [\<lparr>bm_position = o_i ?st, bm_isObject = True,
                  bm_depth = objectFrames (o_braceStack ?st)\<rparr>]
              else o_braces ?st),
           o_i := o_i ?st + 1\<rparr>" by blast
  then have 3: "obj_step defaultConfig ''x =  {a: 1}'' ?st =
     \<lparr>o_i = 6, o_braces = [\<lparr>bm_position = 5, bm_isObject = True, bm_depth = 1\<rparr>],
      o_propertyKeys = [], o_braceStack = [(False, 0), (True, 0), (True, 1)]\<rparr>"
    using a1 by (simp add: objectFrames_def)
  from a1 a2 3 show ?thesis by blast
qed

text \<open>
  C10, as the claim states it, fails: the classification of a later brace is not the
  same as if the stray \<open>}\<close> were absent, because the classification of a \<open>{\<close> reads the
  text before it. In \<open>x = }{a: 1}\<close> the \<open>}\<close> is scanned on an empty stack and the \<open>{\<close>
  after it is a block, with no span; without the \<open>}\<close> the same \<open>{\<close> is an object
  literal at depth 0.
\<close>

theorem stray_closing_brace_counterexample:
  "obj_loop defaultConfig ''x = }{a: 1}'' obj_initial =
     obj_loop defaultConfig ''x = }{a: 1}'' (obj_initial\<lparr>o_i := 4\<rparr>) \<and>
   ''x = }{a: 1}'' ! 4 = CHR ''}'' \<and>
   obj_parse defaultConfig ''x = }{a: 1}'' = [] \<and>
   obj_parse defaultConfig ''x = {a: 1}'' =
     [createColoredRange 4 5 0, createColoredRange 9 10 0, createColoredRange 5 6 0]"
  by code_simp

text \<open>
  C10 (amended). When \<open>findObjectBracesAndKeys\<close> scans a \<open>}\<close> while its brace stack is
  empty, the pop is guarded: no brace is recorded for it, the stack, the braces and the
  keys are unchanged, and the scan goes on at the next character from the same state, so
  that later braces take their depths from the same stack (their classification still
  reads the text before them, the stray \<open>}\<close> included). The scan has no failing path
  and ends on every input, with the cursor at or past the end of the text.
\<close>

theorem stray_closing_brace_guarded:
  assumes "o_i st < length t" and "t ! o_i st = CHR ''}''" and "o_braceStack st = []"
  shows "obj_step cfg t st = st\<lparr>o_i := o_i st + 1\<rparr> \<and>
         obj_loop cfg t st = obj_loop cfg t (st\<lparr>o_i := o_i st + 1\<rparr>) \<and>
         length u \<le> o_i (obj_loop cfg u st')"
proof -
  have s: "obj_step cfg t st = st\<lparr>o_i := o_i st + 1\<rparr>"
    by (rule obj_step_stray_close [OF assms])
  have "obj_loop cfg t st = obj_loop cfg t (obj_step cfg t st)"
    using assms(1) by (subst obj_loop.simps) simp
  with s obj_loop_ends [of u cfg st'] show ?thesis by simp
qed

theorem stray_closing_brace_guarded_witness:
  "obj_step defaultConfig ''} x = {a: 1}'' obj_initial = obj_initial\<lparr>o_i := 1\<rparr> \<and>
   obj_loop defaultConfig ''} x = {a: 1}'' obj_initial =
     obj_loop defaultConfig ''} x = {a: 1}'' (obj_initial\<lparr>o_i := 1\<rparr>)"
  using stray_closing_brace_guarded [of obj_initial "''} x = {a: 1}''" defaultConfig]
  by (simp add: obj_initial_def)

section \<open>Claims about all three lexers\<close>

text \<open>
  C9 (depths are never negative). For every text and every configuration, every range
  emitted by \<open>parse\<close> of the HtmlParser, of the JsxParser and of the ObjectParser has a
  depth of at least 0. In \<open>tokenize\<close> the emissions at \<open>depth - 1\<close> are never negative
  because the loop keeps its invariant: the depth counter equals the sum of the lengths
  of the tag stack and of the object brace stack, and each such emission happens with
  one of the two stacks non-empty. The invariant holds initially, is kept by every
  iteration, and holds when the loop ends.
\<close>

theorem emitted_depths_nonnegative:
  "(\<forall>r\<in>set (parse t). 0 \<le> depth r) \<and>
   (\<forall>r\<in>set (jsx_parse cfg t). 0 \<le> depth r) \<and>
   (\<forall>r\<in>set (obj_parse cfg t). 0 \<le> depth r) \<and>
   jsx_inv jsx_initial \<and>
   (jsx_inv st \<longrightarrow> jsx_inv (tokenize_step cfg t st)) \<and>
   jsx_inv (tokenize_loop cfg t jsx_initial) \<and>
   js_depth (tokenize_loop cfg t jsx_initial) =
     int (length (js_tagStack (tokenize_loop cfg t jsx_initial))) +
     int (length (js_objectBraceStack (tokenize_loop cfg t jsx_initial)))"
proof -
  have 1: "\<forall>r\<in>set (parse t). 0 \<le> depth r"
    using parse_depth_nonneg [of t] by (simp add: list_all_iff)
  have 2: "\<forall>r\<in>set (jsx_parse cfg t). 0 \<le> depth r"
    using jsx_parse_depth_nonneg [of cfg t] by (simp add: list_all_iff)
  have 3: "\<forall>r\<in>set (obj_parse cfg t). 0 \<le> depth r"
    using obj_parse_depth_nonneg [of cfg t] by (simp add: list_all_iff)
  have 4: "jsx_inv (tokenize_loop cfg t jsx_initial)"
    by (rule tokenize_loop_inv [OF jsx_inv_initial])
  then have 5: "js_depth (tokenize_loop cfg t jsx_initial) =
     int (length (js_tagStack (tokenize_loop cfg t jsx_initial))) +
     int (length (js_objectBraceStack (tokenize_loop cfg t jsx_initial)))"
    by (simp add: jsx_inv_def)
  from 1 2 3 4 5 jsx_inv_initial tokenize_step_inv [of st cfg t] show ?thesis by blast
qed

theorem emitted_depths_nonnegative_witness:
  "list_all (\<lambda>r. 0 \<le> depth r) (jsx_parse defaultConfig ''x = {a: <b>{c}</b>}'') \<and>
   list_all (\<lambda>r. 0 \<le> depth r) (obj_parse defaultConfig ''x = {a: <b>{c}</b>}'') \<and>
   list_all (\<lambda>r. 0 \<le> depth r) (parse ''x = {a: <b>{c}</b>}'') \<and>
   jsx_inv (tokenize_step defaultConfig ''x = {a: <b>{c}</b>}'' jsx_initial) \<and>
   map depth (jsx_parse defaultConfig ''x = {a: <b>{c}</b>}'') = [0, 0, 1, 1, 1, 1, 1, 1, 1, 1, 0]"
proof -
  note th = emitted_depths_nonnegative [of "''x = {a: <b>{c}</b>}''" defaultConfig jsx_initial]
  from th have "list_all (\<lambda>r. 0 \<le> depth r) (jsx_parse defaultConfig ''x = {a: <b>{c}</b>}'')"
    and "list_all (\<lambda>r. 0 \<le> depth r) (obj_parse defaultConfig ''x = {a: <b>{c}</b>}'')"
    and "list_all (\<lambda>r. 0 \<le> depth r) (parse ''x = {a: <b>{c}</b>}'')"
    and "jsx_inv (tokenize_step defaultConfig ''x = {a: <b>{c}</b>}'' jsx_initial)"
    unfolding list_all_iff by blast+
  moreover have "map depth (jsx_parse defaultConfig ''x = {a: <b>{c}</b>}'') =
      [0, 0, 1, 1, 1, 1, 1, 1, 1, 1, 0]"
    by code_simp
  ultimately show ?thesis by blast
qed

section \<open>Claim about strings and comments\<close>

text \<open>
  C6 (strings and comments: characters inside them are scanned in each parser). The
  string skipping of \<open>JsxParser\<close> counts braces inside a \<open>${...}\<close> segment and does not
  re-enter itself at a backquote: in \<open>x = `${`}`} = {`\<close> the template literal is taken
  to end at the second nested backquote, and the \<open>{\<close> at offset 14, still inside the
  literal, is emitted as an object brace. The skipping of \<open>ObjectParser\<close> does re-enter
  itself at a nested backquote, and emits nothing on the same text, but it counts the
  braces of a quoted string inside a segment: in \<open>`${ "}" + `={` }`\<close> the \<open>{\<close> at offset
  12, inside the nested template literal, is emitted. In \<open>HtmlParser\<close>, \<open>findTagEnd\<close>
  passes over quoted attribute values, but the pattern of \<open>findAllTags\<close> goes on right
  after the tag name: the \<open><b>\<close> inside the quoted value of \<open><a title="<b>">\<close> is emitted
  as an opening tag at depth 1, after \<open>a\<close> was pushed.
\<close>

theorem characters_inside_literals_scanned:
  \<open>jsx_parse defaultConfig ''x = `${`}`} = {`'' = [createColoredRange 14 15 0] \<and>
   ''x = `${`}`} = {`'' ! 14 = CHR ''{'' \<and>
   obj_parse defaultConfig ''x = `${`}`} = {`'' = [] \<and>
   obj_parse defaultConfig ''`${ "}" + `={` }`'' = [createColoredRange 12 13 0] \<and>
   ''`${ "}" + `={` }`'' ! 12 = CHR ''{'' \<and>
   parse ''<a title="<b>">'' =
     [createColoredRange 0 1 0, createColoredRange 1 2 0, createColoredRange 14 15 0,
      createColoredRange 10 11 1, createColoredRange 11 12 1, createColoredRange 12 13 1]\<close>
  by code_simp

end
